theory Spec2Isabelle
  imports Complex_Main "HOL-Library.AList"
begin

section \<open>OntoViz: the tree builders of \<open>obo_utils.py\<close>\<close>

text \<open>
  The Python builders keep every node as a dictionary object and store references to
  these objects in a dictionary of dictionaries (the forest). Objects are mutated in
  place and may be reachable through several references, so the model keeps an explicit
  heap: a list of node records, an address being an index into it. A Python dictionary is
  an association list in insertion order; \<open>d[k] = v\<close> is \<open>AList.update k v d\<close> (an existing
  key keeps its position, a new key goes to the end), \<open>k in d\<close> is \<open>map_of d k \<noteq> None\<close>
  and \<open>del d[k]\<close> is \<open>AList.delete k d\<close>.
\<close>

datatype error = KeyError | IndexError | AttributeError | FetchError

type_synonym sub_tree = "(string \<times> nat) list"
type_synonym forest = "(string \<times> sub_tree) list"

definition zero' :: real where
  "zero' = 0.000001337"

definition fake_one :: real where
  "fake_one = 1.000001337"

section \<open>Graph mode: \<open>build_tree_from_obo_ontology\<close>\<close>

text \<open>
  A parsed term, as \<open>parse_obo_file\<close> creates it (\<open>new_entity\<close>), together with the keys
  the builder adds to it later: \<open>level\<close>, \<open>parent\<close>, \<open>imported_counts\<close>, \<open>counts\<close>, \<open>color\<close>
  and \<open>description\<close>. The builder writes each of these keys on an object before it reads
  it, so they are plain fields here; their content in a freshly parsed term is arbitrary.
  An \<open>is_a\<close> entry is the non-empty list that \<open>split(" ! ")\<close> returns: its first element
  (the ancestor id, \<open>is_a[0]\<close>) and the remaining elements.
\<close>

record entity =
  e_id :: string
  e_label :: "string option"
  e_namespace :: "string option"
  e_def :: "string option"
  e_comment :: "string option"
  e_is_obsolete :: bool
  e_xrefs :: "string list"
  e_is_a :: "(string \<times> string list) list"
  e_disjoint_from :: "string list list"
  e_synonyms :: "string list list"
  e_level :: int
  e_parent :: string
  e_imported_counts :: real
  e_counts :: real
  e_color :: string
  e_description :: string

type_synonym raw_terms = "(string \<times> nat) list"

subsection \<open>First level (lines 231 to 247)\<close>

text \<open>
  \<open>tree[k] = {}; tree[k][k] = val; tree[k][k]["level"] = 0; tree[k][k]["parent"] = ""\<close>:
  the tree stored under \<open>k\<close> becomes the one-entry dictionary holding the object at
  address \<open>a\<close> itself (no copy), and that object is mutated.
\<close>

definition seed_root :: "string \<Rightarrow> nat \<Rightarrow> entity list \<times> forest \<Rightarrow> entity list \<times> forest" where
  "seed_root k a = (\<lambda>(h, tree).
     (let tree1 = AList.update k [(k, a)] tree;
          h1 = h[a := (h ! a)\<lparr>e_level := 0\<rparr>];
          h2 = h1[a := (h1 ! a)\<lparr>e_parent := ''''\<rparr>]
      in (h2, tree1)))"

text \<open>With a root id: every term one of whose \<open>is_a\<close> entries names the root id.\<close>

definition seed_term :: "string \<Rightarrow> string \<times> nat \<Rightarrow> entity list \<times> forest \<Rightarrow> entity list \<times> forest" where
  "seed_term root_id = (\<lambda>(tm, a) (h, tree).
     fold (\<lambda>is_a s. if root_id = fst is_a then seed_root tm a s else s)
       (e_is_a (h ! a)) (h, tree))"

text \<open>
  Without a root id: the \<open>id\<close> fields of the terms with an empty \<open>is_a\<close> list, each looked
  up in \<open>raw_terms\<close> (a \<open>KeyError\<close> when no term is stored under that id).
\<close>

fun seed_auto :: "raw_terms \<Rightarrow> string list \<Rightarrow> entity list \<times> forest \<Rightarrow> error + entity list \<times> forest" where
  "seed_auto raw [] s = Inr s"
| "seed_auto raw (root_term # rest) s =
     (case map_of raw root_term of
        None \<Rightarrow> Inl KeyError
      | Some a \<Rightarrow> seed_auto raw rest (seed_root root_term a s))"

definition first_level :: "string option \<Rightarrow> raw_terms \<Rightarrow> entity list \<Rightarrow> error + entity list \<times> forest" where
  "first_level root_id raw h =
     (if root_id \<noteq> None \<and> root_id \<noteq> Some ''''
      then Inr (fold (seed_term (the root_id)) raw (h, []))
      else seed_auto raw
             (map (\<lambda>(k, a). e_id (h ! a)) (filter (\<lambda>(k, a). e_is_a (h ! a) = []) raw))
             (h, []))"

subsection \<open>Propagation (lines 249 to 268)\<close>

text \<open>
  One \<open>is_a\<close> entry of the copy at address \<open>c\<close> of the term \<open>tm\<close>, against one tree.
\<close>

definition attach :: "string \<Rightarrow> nat \<Rightarrow> string \<times> string list \<Rightarrow>
    entity list \<times> sub_tree \<times> bool \<Rightarrow> entity list \<times> sub_tree \<times> bool" where
  "attach tm c is_a = (\<lambda>(h, st, had_content).
     (let is_a_id = fst is_a in
      case map_of st is_a_id of
        None \<Rightarrow> (h, st, had_content)
      | Some p \<Rightarrow>
          if map_of st tm = None
          then (let st1 = AList.update tm c st;
                    h1 = h[c := (h ! c)\<lparr>e_level := e_level (h ! p) + 1\<rparr>];
                    h2 = h1[c := (h1 ! c)\<lparr>e_parent := e_id (h1 ! p)\<rparr>]
                in (h2, st1, True))
          else (h, st, had_content)))"

text \<open>\<open>copied_value = val.copy()\<close> allocates a new object with the fields of \<open>val\<close>.\<close>

definition visit_term :: "string \<times> nat \<Rightarrow> entity list \<times> sub_tree \<times> bool \<Rightarrow> entity list \<times> sub_tree \<times> bool" where
  "visit_term = (\<lambda>(tm, a) (h, st, had_content).
     (let c = length h; h' = h @ [h ! a]
      in fold (attach tm c) (e_is_a (h' ! c)) (h', st, had_content)))"

fun propagate_pass :: "raw_terms \<Rightarrow> forest \<Rightarrow> entity list \<Rightarrow> bool \<Rightarrow> entity list \<times> forest \<times> bool" where
  "propagate_pass raw [] h had_content = (h, [], had_content)"
| "propagate_pass raw ((sub_tree_id, st) # rest) h had_content =
     (case fold visit_term raw (h, st, had_content) of
        (h1, st1, had1) \<Rightarrow>
          (case propagate_pass raw rest h1 had1 of
             (h2, rest2, had2) \<Rightarrow> (h2, (sub_tree_id, st1) # rest2, had2)))"

text \<open>
  The \<open>while True\<close> loop of the propagation. It ends: a pass that sets \<open>had_content\<close> has put
  a term of \<open>raw_terms\<close> into a tree that did not hold it, and there are finitely many
  such pairs. \<open>todo\<close> counts them.
\<close>

definition todo :: "raw_terms \<Rightarrow> sub_tree \<Rightarrow> nat" where
  "todo raw st = card (fst ` set raw - fst ` set st)"

definition todo_all :: "raw_terms \<Rightarrow> forest \<Rightarrow> nat" where
  "todo_all raw tree = sum_list (map (\<lambda>(k, st). todo raw st) tree)"

lemma map_of_None_iff: "map_of st k = None \<longleftrightarrow> k \<notin> fst ` set st"
  by (simp add: map_of_eq_None_iff)

lemma update_fresh: "map_of st k = None \<Longrightarrow> AList.update k v st = st @ [(k, v)]"
  by (induction st) (auto split: if_splits)

lemma todo_insert:
  assumes "tm \<in> fst ` set raw" "map_of st tm = None"
  shows "todo raw (st @ [(tm, c)]) < todo raw st"
proof -
  have "fst ` set raw - fst ` set (st @ [(tm, c)]) \<subset> fst ` set raw - fst ` set st"
    using assms by (auto simp: map_of_None_iff)
  then show ?thesis unfolding todo_def by (intro psubset_card_mono) auto
qed

lemma attach_progress:
  assumes "tm \<in> fst ` set raw" "attach tm c ia (h, st, had) = (h', st', had')"
  shows "todo raw st' \<le> todo raw st \<and> (had' \<longrightarrow> had \<or> todo raw st' < todo raw st)"
  using assms todo_insert[of tm raw st c]
  by (auto simp: attach_def Let_def update_fresh split: option.splits if_splits)

lemma fold_attach_progress:
  assumes "tm \<in> fst ` set raw" "fold (attach tm c) ias (h, st, had) = (h', st', had')"
  shows "todo raw st' \<le> todo raw st \<and> (had' \<longrightarrow> had \<or> todo raw st' < todo raw st)"
  using assms
proof (induction ias arbitrary: h st had)
  case Nil
  then show ?case by simp
next
  case (Cons ia ias)
  obtain h1 st1 had1 where a: "attach tm c ia (h, st, had) = (h1, st1, had1)"
    by (cases "attach tm c ia (h, st, had)") auto
  from attach_progress[OF Cons.prems(1) a] Cons.IH[OF Cons.prems(1), of h1 st1 had1] Cons.prems(2) a
  show ?case by auto
qed

lemma visit_term_progress:
  assumes "x \<in> set raw" "visit_term x (h, st, had) = (h', st', had')"
  shows "todo raw st' \<le> todo raw st \<and> (had' \<longrightarrow> had \<or> todo raw st' < todo raw st)"
proof -
  obtain tm a where x: "x = (tm, a)" by (cases x)
  have "tm \<in> fst ` set raw" using assms(1) x by force
  from fold_attach_progress[OF this] assms(2) show ?thesis
    unfolding x visit_term_def Let_def by simp
qed

lemma fold_visit_progress:
  assumes "set xs \<subseteq> set raw" "fold visit_term xs (h, st, had) = (h', st', had')"
  shows "todo raw st' \<le> todo raw st \<and> (had' \<longrightarrow> had \<or> todo raw st' < todo raw st)"
  using assms
proof (induction xs arbitrary: h st had)
  case Nil
  then show ?case by simp
next
  case (Cons x xs)
  obtain h1 st1 had1 where a: "visit_term x (h, st, had) = (h1, st1, had1)"
    by (cases "visit_term x (h, st, had)") auto
  have x: "x \<in> set raw" and xs: "set xs \<subseteq> set raw" using Cons.prems(1) by auto
  from visit_term_progress[OF x a] Cons.IH[OF xs, of h1 st1 had1] Cons.prems(2) a
  show ?case by auto
qed

lemma propagate_pass_progress:
  assumes "propagate_pass raw tree h had = (h', tree', had')"
  shows "todo_all raw tree' \<le> todo_all raw tree \<and> (had' \<longrightarrow> had \<or> todo_all raw tree' < todo_all raw tree)"
  using assms
proof (induction tree arbitrary: h had h' tree' had')
  case Nil
  then show ?case by (simp add: todo_all_def)
next
  case (Cons t tree)
  obtain k st where t: "t = (k, st)" by (cases t)
  obtain h1 st1 had1 where a: "fold visit_term raw (h, st, had) = (h1, st1, had1)"
    by (cases "fold visit_term raw (h, st, had)") auto
  obtain h2 rest2 had2 where b: "propagate_pass raw tree h1 had1 = (h2, rest2, had2)"
    by (cases "propagate_pass raw tree h1 had1") auto
  from Cons.prems have c: "tree' = (k, st1) # rest2" "had' = had2"
    by (auto simp: t a b)
  from fold_visit_progress[OF subset_refl a] Cons.IH[OF b]
  show ?case unfolding c t by (auto simp: todo_all_def)
qed

lemma propagate_pass_decreases:
  "propagate_pass raw tree h False = (h1, tree1, True) \<Longrightarrow> todo_all raw tree1 < todo_all raw tree"
  using propagate_pass_progress[of raw tree h False h1 tree1 True] by simp

function propagate :: "raw_terms \<Rightarrow> entity list \<times> forest \<times> nat \<Rightarrow> entity list \<times> forest \<times> nat" where
  "propagate raw (h, tree, iterations) =
     (case propagate_pass raw tree h False of
        (h1, tree1, had_content) \<Rightarrow>
          if \<not> had_content then (h1, tree1, iterations)
          else propagate raw (h1, tree1, iterations + 1))"
  by pat_completeness auto
termination propagate
  by (relation "measure (\<lambda>(raw, h, tree, iterations). todo_all raw tree)")
    (auto dest: propagate_pass_decreases propagate_pass_decreases[OF sym])

declare propagate.simps [simp del]


subsection \<open>Cleaning, annotation and pruning (lines 270 to 306)\<close>

definition nodes_with_missing_parent :: "entity list \<Rightarrow> forest \<Rightarrow> (string \<times> string) list" where
  "nodes_with_missing_parent h tree =
     concat (map (\<lambda>(sub_tree_id, st).
       map (\<lambda>(key, a). (sub_tree_id, key))
         (filter (\<lambda>(key, a). e_parent (h ! a) \<noteq> '''' \<and> map_of st (e_parent (h ! a)) = None) st))
       tree)"

text \<open>\<open>del tree[sub_tree_id][node_id]\<close>: in the tree stored under \<open>sub_tree_id\<close>.\<close>

definition del_node :: "string \<times> string \<Rightarrow> forest \<Rightarrow> forest" where
  "del_node = (\<lambda>(sub_tree_id, node_id) tree.
     map (\<lambda>(k, st). if k = sub_tree_id then (k, AList.delete node_id st) else (k, st)) tree)"

text \<open>
  The \<open>while True\<close> loop of the cleaning. It ends: a pass that finds a node with a missing
  parent deletes it, so the number of nodes goes down.
\<close>

definition node_count :: "forest \<Rightarrow> nat" where
  "node_count tree = sum_list (map (\<lambda>(k, st). length st) tree)"

lemma del_node_filter:
  "del_node (s, n) tree = map (\<lambda>(k, st). (k, filter (\<lambda>(key, a). (k, key) \<noteq> (s, n)) st)) tree"
  unfolding del_node_def
  by (induction tree) (auto simp: AList.delete_eq intro!: filter_cong)

lemma fold_del_node:
  "fold del_node ns tree = map (\<lambda>(k, st). (k, filter (\<lambda>(key, a). (k, key) \<notin> set ns) st)) tree"
proof (induction ns arbitrary: tree)
  case Nil
  then show ?case by (simp add: case_prod_unfold)
next
  case (Cons x ns)
  obtain s n where x: "x = (s, n)" by (cases x)
  show ?case
    unfolding x fold_simps Cons.IH del_node_filter
    by (auto simp: case_prod_unfold o_def intro!: filter_cong)
qed

lemma node_count_filter_le:
  "node_count (map (\<lambda>(k, st). (k, filter (P k) st)) tree) \<le> node_count tree"
  unfolding node_count_def
  by (induction tree) (auto simp: case_prod_unfold intro: add_mono)

lemma node_count_filter_less:
  assumes "(k, st) \<in> set tree" "x \<in> set st" "\<not> P k x"
  shows "node_count (map (\<lambda>(k, st). (k, filter (P k) st)) tree) < node_count tree"
  using assms
proof (induction tree)
  case Nil
  then show ?case by simp
next
  case (Cons t tree)
  show ?case
  proof (cases "t = (k, st)")
    case True
    have "length (filter (P k) st) < length st"
      using Cons.prems(2,3) by (simp add: length_filter_less)
    moreover have "node_count (map (\<lambda>(k, st). (k, filter (P k) st)) tree) \<le> node_count tree"
      by (rule node_count_filter_le)
    ultimately show ?thesis using True by (simp add: node_count_def)
  next
    case False
    then have "(k, st) \<in> set tree" using Cons.prems(1) by auto
    from Cons.IH[OF this Cons.prems(2,3)]
    show ?thesis by (auto simp: node_count_def case_prod_unfold intro: add_le_less_mono)
  qed
qed

lemma missing_parent_member:
  "(s, n) \<in> set (nodes_with_missing_parent h tree) \<Longrightarrow>
     \<exists>st a. (s, st) \<in> set tree \<and> (n, a) \<in> set st"
  unfolding nodes_with_missing_parent_def by auto

lemma cleaning_decreases:
  assumes "nodes_with_missing_parent h tree \<noteq> []"
  shows "node_count (fold del_node (nodes_with_missing_parent h tree) tree) < node_count tree"
proof -
  obtain s n where sn: "(s, n) \<in> set (nodes_with_missing_parent h tree)"
    using assms by (cases "nodes_with_missing_parent h tree") auto
  then obtain st a where m: "(s, st) \<in> set tree" "(n, a) \<in> set st"
    using missing_parent_member by blast
  show ?thesis
    unfolding fold_del_node
    using node_count_filter_less[OF m, of "\<lambda>k (key, a). (k, key) \<notin> set (nodes_with_missing_parent h tree)"] sn
    by (simp add: case_prod_unfold)
qed

function cleaning :: "entity list \<Rightarrow> forest \<times> nat \<Rightarrow> forest \<times> nat" where
  "cleaning h (tree, cleaning_iterations) =
     (let ns = nodes_with_missing_parent h tree
      in if ns = [] then (tree, cleaning_iterations)
         else cleaning h (fold del_node ns tree, cleaning_iterations + 1))"
  by pat_completeness auto
termination cleaning
  by (relation "measure (\<lambda>(h, tree, cleaning_iterations). node_count tree)")
    (auto dest: cleaning_decreases)

declare cleaning.simps [simp del]

definition pystr :: "string option \<Rightarrow> string" where
  "pystr v = (case v of None \<Rightarrow> ''None'' | Some s \<Rightarrow> s)"

definition annotate_node :: "nat \<Rightarrow> entity list \<Rightarrow> entity list" where
  "annotate_node a h =
     (let h1 = h[a := (h ! a)\<lparr>e_imported_counts := 1.000001337\<rparr>];
          h2 = h1[a := (h1 ! a)\<lparr>e_counts := 0.000001337\<rparr>];
          h3 = h2[a := (h2 ! a)\<lparr>e_color := ''#FFFFFF''\<rparr>]
      in h3[a := (h3 ! a)\<lparr>e_description :=
            ''Definition: '' @ pystr (e_def (h3 ! a)) @ [CHR 0x0A] @
            ''Comment: '' @ pystr (e_comment (h3 ! a))\<rparr>])"

definition annotate :: "forest \<Rightarrow> entity list \<Rightarrow> entity list" where
  "annotate tree h = fold (\<lambda>(sub_tree_id, st) h1. fold (\<lambda>(key, a). annotate_node a) st h1) tree h"

definition prune :: "int option \<Rightarrow> forest \<Rightarrow> forest" where
  "prune min_node_size tree =
     (if min_node_size \<noteq> None \<and> min_node_size \<noteq> Some 0
      then (let sub_tree_ids_to_drop =
                  map fst (filter (\<lambda>(sub_tree_id, st). int (length st) < the min_node_size) tree)
            in fold AList.delete sub_tree_ids_to_drop tree)
      else tree)"

definition obo_forest :: "string option \<Rightarrow> int option \<Rightarrow> raw_terms \<Rightarrow> entity list \<Rightarrow> error + entity list \<times> forest" where
  "obo_forest root_id min_node_size raw h =
     (case first_level root_id raw h of
        Inl e \<Rightarrow> Inl e
      | Inr (h1, tree1) \<Rightarrow>
          (case propagate raw (h1, tree1, 0) of
             (h2, tree2, iterations) \<Rightarrow>
               (case cleaning h2 (tree2, 0) of
                  (tree3, cleaning_iterations) \<Rightarrow>
                    Inr (annotate tree3 h2, prune min_node_size tree3))))"

text \<open>
  \<open>parse_obo_file\<close> downloads and parses; it is a parameter here: given the url and the
  heap it returns an error or the heap with the new term objects and \<open>raw_terms\<close>.
  \<open>if not raw_terms\<close> holds for \<open>None\<close> and for the empty dictionary. The status updates
  to \<open>app\<close> and the \<open>descriptor\<close> they print have no effect on the result.
\<close>

type_synonym parser = "string option \<Rightarrow> entity list \<Rightarrow> error + entity list \<times> raw_terms"

definition build_tree_from_obo_ontology ::
    "parser \<Rightarrow> string option \<Rightarrow> string option \<Rightarrow> raw_terms option \<Rightarrow> int option \<Rightarrow>
     entity list \<Rightarrow> error + entity list \<times> forest" where
  "build_tree_from_obo_ontology parse_obo_file url root_id raw_terms min_node_size h =
     (case (if raw_terms = None \<or> raw_terms = Some []
            then parse_obo_file url h
            else Inr (h, the raw_terms)) of
        Inl e \<Rightarrow> Inl e
      | Inr (h0, raw) \<Rightarrow> obo_forest root_id min_node_size raw h0)"

section \<open>\<open>get_remote_ontology\<close>\<close>

record obo_settings =
  o_custom_url :: "string option"
  o_description :: "string option"
  o_root_id :: "string option"
  o_min_node_size :: "int option"

record app =
  a_obo :: obo_settings

definition root_term_translation :: "(string \<times> string) list" where
  "root_term_translation =
     [(''go_mf'', ''molecular_function''),
      (''go_cp'', ''cellular_component''),
      (''go_bp'', ''biological_process'')]"

text \<open>
  The result is \<open>None\<close> when the Python function falls off its last \<open>elif\<close> and returns
  \<open>None\<close>, \<open>Some (Inl e)\<close> when it raises and \<open>Some (Inr (h, forest))\<close> when it returns a
  forest. The parameters \<open>url\<close>, \<open>root_id\<close> and \<open>min_node_size\<close> are never read.
\<close>

definition get_remote_ontology ::
    "parser \<Rightarrow> string option \<Rightarrow> app option \<Rightarrow> string option \<Rightarrow> string option \<Rightarrow> int option \<Rightarrow>
     entity list \<Rightarrow> (error + entity list \<times> forest) option" where
  "get_remote_ontology parse_obo_file ontology_short app url root_id min_node_size h =
     (if ontology_short = Some ''hpo''
      then Some (build_tree_from_obo_ontology parse_obo_file
                   (Some ''https://purl.obolibrary.org/obo/hp.obo'') (Some ''HP:0000118'') None None h)
      else if ontology_short \<in> set [Some ''go_mf'', Some ''go_cp'', Some ''go_bp'']
      then Some
        (case parse_obo_file (Some ''https://current.geneontology.org/ontology/go.obo'') h of
           Inl e \<Rightarrow> Inl e
         | Inr (h1, raw) \<Rightarrow>
             (let root_terms = map (\<lambda>(k, a). (e_label (h1 ! a), e_id (h1 ! a)))
                                 (filter (\<lambda>(k, a). e_is_a (h1 ! a) = []) raw)
              in case map_of root_term_translation (the ontology_short) of
                   None \<Rightarrow> Inl KeyError
                 | Some label \<Rightarrow>
                     (case map_of (rev root_terms) (Some label) of
                        None \<Rightarrow> Inl KeyError
                      | Some root_id1 \<Rightarrow>
                          build_tree_from_obo_ontology parse_obo_file None (Some root_id1)
                            (Some raw) (Some 2) h1)))
      else if ontology_short = Some ''po''
      then Some (build_tree_from_obo_ontology parse_obo_file
                   (Some ''https://purl.obolibrary.org/obo/po.obo'') (Some ''PO:0009011'') None (Some 5) h)
      else if ontology_short = Some ''cl''
      then Some (build_tree_from_obo_ontology parse_obo_file
                   (Some ''https://purl.obolibrary.org/obo/cl/cl-basic.obo'') None None (Some 2) h)
      else if ontology_short = Some ''chebi''
      then Some (build_tree_from_obo_ontology parse_obo_file
                   (Some ''https://purl.obolibrary.org/obo/chebi/chebi_lite.obo'') (Some ''CHEBI:23367'')
                   None None h)
      else if ontology_short = Some ''uberon''
      then Some (build_tree_from_obo_ontology parse_obo_file
                   (Some ''https://purl.obolibrary.org/obo/uberon/basic.obo'') (Some ''UBERON:0000061'')
                   None (Some 2) h)
      else if ontology_short = Some ''doid''
      then Some (build_tree_from_obo_ontology parse_obo_file
                   (Some ''https://purl.obolibrary.org/obo/doid.obo'') (Some ''DOID:4'') None None h)
      else if ontology_short = Some ''custom_url''
      then Some
        (case app of
           None \<Rightarrow> Inl AttributeError
         | Some ap \<Rightarrow>
             build_tree_from_obo_ontology parse_obo_file (o_custom_url (a_obo ap))
               (o_root_id (a_obo ap)) None (o_min_node_size (a_obo ap)) h)
      else None)"

section \<open>Flat mode: \<open>build_non_separator_based_tree\<close>\<close>

text \<open>
  A line of the file after \<open>rstrip\<close> and \<open>split("\t")\<close>: the ids of its first column
  (\<open>split("|")\<close>), the five columns the function reads, and the outcome of \<open>int\<close> on the
  count column (\<open>None\<close> when it raises \<open>ValueError\<close>, which the function catches). The
  header line is not part of the list.
\<close>

record row =
  r_ids :: "string list"
  r_parent :: string
  r_label :: string
  r_description :: string
  r_count :: "int option"
  r_color :: string

record node =
  n_id :: string
  n_parent :: string
  n_level :: int
  n_label :: string
  n_description :: string
  n_counts :: real
  n_imported_counts :: real
  n_color :: string

text \<open>The heap, the forest, \<open>to_process\<close> (attempts and node) and the printed lines.\<close>

type_synonym flat_state = "node list \<times> forest \<times> (int \<times> nat) list \<times> string list"

definition make_node :: "row \<Rightarrow> string \<Rightarrow> node" where
  "make_node r node_id =
     (let count = (case r_count r of None \<Rightarrow> 0 | Some c \<Rightarrow> c)
      in \<lparr>n_id = node_id, n_parent = r_parent r, n_level = 0, n_label = r_label r,
          n_description = r_description r,
          n_counts = (if count \<noteq> 0 then of_int count else zero'),
          n_imported_counts = (if count \<noteq> 0 then of_int count else fake_one),
          n_color = r_color r\<rparr>)"

definition read_node :: "row \<Rightarrow> string \<Rightarrow> flat_state \<Rightarrow> flat_state" where
  "read_node r node_id = (\<lambda>(h, tree, to_process, out).
     (let a = length h; h1 = h @ [make_node r node_id]
      in if r_parent r = ''''
         then (h1, AList.update node_id [(node_id, a)] tree, to_process, out)
         else (h1, tree, to_process @ [(0, a)], out)))"

definition read_rows :: "row list \<Rightarrow> flat_state" where
  "read_rows rows = fold (\<lambda>r s. fold (read_node r) (r_ids r) s) rows ([], [], [], [])"

text \<open>
  The scan of every tree for the parent of the pending node at address \<open>a\<close>, the entry
  \<open>idx\<close> of \<open>to_process\<close>. The \<open>continue\<close> of line 65 ends an iteration that has nothing
  left to do, so the scan goes on through the remaining trees after a match.
\<close>

fun scan_trees :: "nat \<Rightarrow> nat \<Rightarrow> forest \<Rightarrow> node list \<Rightarrow> nat list \<Rightarrow> forest \<times> node list \<times> nat list" where
  "scan_trees a idx [] h drop_idxs = ([], h, drop_idxs)"
| "scan_trees a idx ((sub_tree_id, st) # rest) h drop_idxs =
     (let parent = n_parent (h ! a)
      in case map_of st parent of
           None \<Rightarrow>
             (case scan_trees a idx rest h drop_idxs of
                (rest1, h1, drops1) \<Rightarrow> ((sub_tree_id, st) # rest1, h1, drops1))
         | Some p \<Rightarrow>
             (let h1 = h[a := (h ! a)\<lparr>n_level := n_level (h ! p) + 1\<rparr>];
                  st1 = AList.update (n_id (h1 ! a)) a st
              in case scan_trees a idx rest h1 (drop_idxs @ [idx]) of
                   (rest2, h2, drops2) \<Rightarrow> ((sub_tree_id, st1) # rest2, h2, drops2)))"

text \<open>
  The \<open>for\<close> loop over \<open>enumerate(to_process)\<close>. Line 67, \<open>attempts += 1\<close>, rebinds the
  loop variable only: the entry of \<open>to_process\<close> keeps its count, so nothing is done for
  it here.
\<close>

fun process_pending :: "nat \<Rightarrow> (int \<times> nat) list \<Rightarrow>
    node list \<times> forest \<times> nat list \<times> string list \<Rightarrow> node list \<times> forest \<times> nat list \<times> string list" where
  "process_pending idx [] s = s"
| "process_pending idx ((attempts, a) # rest) (h, tree, drop_idxs, out) =
     (if attempts \<ge> 20
      then process_pending (Suc idx) rest
             (h, tree, drop_idxs @ [idx],
              out @ [''Dropping node because no suitable parent was found after 20 attempts: ''
                     @ n_id (h ! a)])
      else (case scan_trees a idx tree h drop_idxs of
              (tree1, h1, drops1) \<Rightarrow> process_pending (Suc idx) rest (h1, tree1, drops1, out)))"

text \<open>\<open>del to_process[idx]\<close> for every index of the list, in its order.\<close>

fun del_idxs :: "nat list \<Rightarrow> 'a list \<Rightarrow> error + 'a list" where
  "del_idxs [] xs = Inr xs"
| "del_idxs (i # is) xs =
     (if i < length xs then del_idxs is (take i xs @ drop (Suc i) xs) else Inl IndexError)"

definition flat_pass :: "flat_state \<Rightarrow> error + flat_state" where
  "flat_pass = (\<lambda>(h, tree, to_process, out).
     (case process_pending 0 to_process (h, tree, [], out) of
        (h1, tree1, drop_idxs, out1) \<Rightarrow>
          (case del_idxs (rev (sort drop_idxs)) to_process of
             Inl e \<Rightarrow> Inl e
           | Inr to_process1 \<Rightarrow> Inr (h1, tree1, to_process1, out1))))"

text \<open>
  The \<open>while True\<close> loop. It may run forever: the result is \<open>None\<close> then, \<open>Some (Inl e)\<close>
  when the function raises and \<open>Some (Inr s)\<close> when it leaves the loop in state \<open>s\<close>.
\<close>

partial_function (option) flat_loop :: "flat_state \<Rightarrow> (error + flat_state) option" where
  "flat_loop s =
     (case flat_pass s of
        Inl e \<Rightarrow> Some (Inl e)
      | Inr s1 \<Rightarrow> if fst (snd (snd s1)) = [] then Some (Inr s1) else flat_loop s1)"

definition build_non_separator_based_tree :: "row list \<Rightarrow> (error + node list \<times> forest \<times> string list) option" where
  "build_non_separator_based_tree rows =
     map_option (map_sum id (\<lambda>(h, tree, to_process, out). (h, tree, out))) (flat_loop (read_rows rows))"

section \<open>Flat mode: the attempt ceiling\<close>

text \<open>A pass that changes nothing and leaves a node pending is repeated forever.\<close>

lemma flat_loop_stuck:
  assumes "flat_pass s = Inr s" "fst (snd (snd s)) \<noteq> []"
  shows "flat_loop s = None"
proof (rule ccontr)
  assume "flat_loop s \<noteq> None"
  then obtain y where y: "flat_loop s = Some y" by auto
  have "x \<noteq> s" if "flat_loop x = Some y" for x y
  proof (rule flat_loop.raw_induct[where P = "\<lambda>x y. x \<noteq> s", OF _ that])
    fix f x y
    assume IH: "\<And>s' y'. f s' = Some y' \<Longrightarrow> s' \<noteq> s"
      and eq: "(case flat_pass x of Inl e \<Rightarrow> Some (Inl e)
                | Inr s1 \<Rightarrow> if fst (snd (snd s1)) = [] then Some (Inr s1) else f s1) = Some y"
    show "x \<noteq> s"
    proof
      assume "x = s"
      with eq assms have "f s = Some y" by simp
      with IH show False by blast
    qed
  qed
  with y show False by blast
qed

definition row_A :: row where
  "row_A = \<lparr>r_ids = [''A''], r_parent = '''', r_label = ''a'', r_description = '''',
            r_count = Some 5, r_color = ''#FF0000''\<rparr>"

definition row_B :: row where
  "row_B = \<lparr>r_ids = [''B''], r_parent = ''A'', r_label = ''b'', r_description = '''',
            r_count = None, r_color = ''#00FF00''\<rparr>"

definition row_D :: row where
  "row_D = \<lparr>r_ids = [''D''], r_parent = ''X'', r_label = ''d'', r_description = '''',
            r_count = Some 3, r_color = ''#000000''\<rparr>"

lemmas flat_eval = read_rows_def read_node_def make_node_def flat_pass_def

text \<open>
  Claim C1 (termination of both builders). The loops of graph mode end: \<open>propagate\<close> and
  \<open>cleaning\<close> are total functions, their termination proved above from \<open>todo_all\<close> and
  \<open>node_count\<close>. The loop of flat mode does not end on every input: the count of
  attempts of a pending node is never written back to \<open>to_process\<close>, so the ceiling of
  20 is never reached. On the file whose only line is a node \<open>D\<close> with the parent \<open>X\<close>, a
  pass returns the state it started from and the function never returns.
\<close>

theorem flat_mode_diverges:
  "flat_pass (read_rows [row_D]) = Inr (read_rows [row_D]) \<and>
   build_non_separator_based_tree [row_D] = None"
proof -
  have p: "flat_pass (read_rows [row_D]) = Inr (read_rows [row_D])"
    by (simp add: flat_eval row_D_def)
  have "fst (snd (snd (read_rows [row_D]))) \<noteq> []"
    by (simp add: flat_eval row_D_def)
  with p show ?thesis
    by (simp add: build_non_separator_based_tree_def flat_loop_stuck)
qed

text \<open>
  Claim C2 (a node whose parent never resolves is dropped after 20 attempts). On the
  lines \<open>B\<close> (parent \<open>A\<close>), \<open>A\<close> (a root) and \<open>D\<close> (parent \<open>X\<close>, which no line declares) the
  first pass attaches \<open>B\<close> and leaves \<open>D\<close> pending with the count 0; every later pass
  returns that same state: \<open>D\<close> is never dropped, nothing is printed and the function
  never returns a forest.
\<close>

definition stuck_state :: flat_state where
  "stuck_state =
     ([\<lparr>n_id = ''B'', n_parent = ''A'', n_level = 1, n_label = ''b'', n_description = '''',
        n_counts = zero', n_imported_counts = fake_one, n_color = ''#00FF00''\<rparr>,
       \<lparr>n_id = ''A'', n_parent = '''', n_level = 0, n_label = ''a'', n_description = '''',
        n_counts = 5, n_imported_counts = 5, n_color = ''#FF0000''\<rparr>,
       \<lparr>n_id = ''D'', n_parent = ''X'', n_level = 0, n_label = ''d'', n_description = '''',
        n_counts = 3, n_imported_counts = 3, n_color = ''#000000''\<rparr>],
      [(''A'', [(''A'', 1), (''B'', 0)])],
      [(0, 2)],
      [])"

theorem unresolved_parent_never_dropped:
  "flat_pass (read_rows [row_B, row_A, row_D]) = Inr stuck_state \<and>
   flat_pass stuck_state = Inr stuck_state \<and>
   build_non_separator_based_tree [row_B, row_A, row_D] = None"
proof -
  have p1: "flat_pass (read_rows [row_B, row_A, row_D]) = Inr stuck_state"
    by (simp add: flat_eval row_A_def row_B_def row_D_def stuck_state_def)
  have p2: "flat_pass stuck_state = Inr stuck_state"
    by (simp add: flat_pass_def stuck_state_def)
  have q: "fst (snd (snd stuck_state)) \<noteq> []"
    by (simp add: stuck_state_def)
  have "flat_loop (read_rows [row_B, row_A, row_D]) = flat_loop stuck_state"
    by (subst flat_loop.simps) (simp add: p1 q)
  also have "\<dots> = None"
    using p2 q by (rule flat_loop_stuck)
  finally show ?thesis
    using p1 p2 by (simp add: build_non_separator_based_tree_def)
qed

section \<open>\<open>get_remote_ontology\<close>: identifiers it does not know\<close>

text \<open>
  Claim C10. For every \<open>ontology_short\<close> other than the ten identifiers of the
  \<open>if\<close>/\<open>elif\<close> chain, \<open>None\<close> among them, \<open>get_remote_ontology\<close> returns \<open>None\<close>: it
  neither raises nor returns a forest.
\<close>

theorem get_remote_ontology_unrecognized:
  assumes "ontology_short \<notin> set [Some ''hpo'', Some ''go_mf'', Some ''go_cp'', Some ''go_bp'',
             Some ''po'', Some ''cl'', Some ''chebi'', Some ''uberon'', Some ''doid'',
             Some ''custom_url'']"
  shows "get_remote_ontology parse_obo_file ontology_short app url root_id min_node_size h = None"
  using assms by (simp add: get_remote_ontology_def)

theorem get_remote_ontology_unrecognized_witness:
  "get_remote_ontology (\<lambda>u h. Inl FetchError) None None None None None [] = None \<and>
   get_remote_ontology (\<lambda>u h. Inl FetchError) (Some ''mesh'') None None None None [] = None"
  using get_remote_ontology_unrecognized[of None "\<lambda>u h. Inl FetchError" None None None None "[]"]
    get_remote_ontology_unrecognized[of "Some ''mesh''" "\<lambda>u h. Inl FetchError" None None None None "[]"]
  by simp

section \<open>Graph mode: properties\<close>

subsection \<open>The first level, step by step\<close>

lemma seed_term_rule:
  assumes "P s" "\<And>s. P s \<Longrightarrow> P (seed_root k a s)"
  shows "P (fold (\<lambda>is_a s. if r = fst is_a then seed_root k a s else s) ias s)"
  using assms(1)
proof (induction ias arbitrary: s)
  case Nil
  then show ?case by simp
next
  case (Cons ia ias)
  show ?case
  proof (cases "r = fst ia")
    case True
    have "P (seed_root k a s)" using Cons.prems by (rule assms(2))
    from Cons.IH[OF this] True show ?thesis by simp
  next
    case False
    from Cons.IH[OF Cons.prems] False show ?thesis by simp
  qed
qed

lemma fold_seed_term_rule:
  assumes "P s" "\<And>k a s. (k, a) \<in> set raw \<Longrightarrow> P s \<Longrightarrow> P (seed_root k a s)" "set xs \<subseteq> set raw"
  shows "P (fold (seed_term r) xs s)"
  using assms(1,3)
proof (induction xs arbitrary: s)
  case Nil
  then show ?case by simp
next
  case (Cons x xs)
  obtain k a where x: "x = (k, a)" by (cases x)
  obtain h tree where s: "s = (h, tree)" by (cases s)
  have ka: "(k, a) \<in> set raw" using Cons.prems(2) x by auto
  have "P (fold (\<lambda>is_a s. if r = fst is_a then seed_root k a s else s) (e_is_a (h ! a)) s)"
    using Cons.prems(1) assms(2)[OF ka] by (rule seed_term_rule)
  then have "P (seed_term r x s)"
    by (simp add: x s seed_term_def)
  moreover have "set xs \<subseteq> set raw" using Cons.prems(2) by simp
  ultimately have "P (fold (seed_term r) xs (seed_term r x s))" by (rule Cons.IH)
  then show ?case by simp
qed

lemma seed_auto_rule:
  assumes "P s" "\<And>k a s. (k, a) \<in> set raw \<Longrightarrow> P s \<Longrightarrow> P (seed_root k a s)"
    "seed_auto raw rs s = Inr s'"
  shows "P s'"
  using assms(1,3)
proof (induction rs arbitrary: s)
  case Nil
  then show ?case by simp
next
  case (Cons r rs)
  from Cons.prems(2) obtain a where a: "map_of raw r = Some a"
    and rest: "seed_auto raw rs (seed_root r a s) = Inr s'"
    by (auto split: option.splits)
  have "(r, a) \<in> set raw" using a by (rule map_of_SomeD)
  then have "P (seed_root r a s)" using Cons.prems(1) by (rule assms(2))
  then show ?case using rest by (rule Cons.IH)
qed

lemma first_level_rule:
  assumes "first_level root_id raw h = Inr s'" "P (h, [])"
    "\<And>k a s. (k, a) \<in> set raw \<Longrightarrow> P s \<Longrightarrow> P (seed_root k a s)"
  shows "P s'"
proof (cases "root_id \<noteq> None \<and> root_id \<noteq> Some ''''")
  case True
  then have "s' = fold (seed_term (the root_id)) raw (h, [])"
    using assms(1) by (simp add: first_level_def)
  moreover have "P (fold (seed_term (the root_id)) raw (h, []))"
    by (rule fold_seed_term_rule[OF assms(2) assms(3) subset_refl])
  ultimately show ?thesis by simp
next
  case False
  then have "seed_auto raw (map (\<lambda>(k, a). e_id (h ! a)) (filter (\<lambda>(k, a). e_is_a (h ! a) = []) raw)) (h, []) = Inr s'"
    using assms(1) by (simp add: first_level_def split: if_splits)
  with assms(2) assms(3) show ?thesis by (rule seed_auto_rule)
qed

lemma first_level_keys:
  assumes "first_level root_id raw h = Inr (h1, tree1)"
  shows "distinct (map fst tree1)"
proof -
  have "distinct (map fst (snd (h1, tree1)))"
    by (rule first_level_rule[OF assms, where P = "\<lambda>s. distinct (map fst (snd s))"])
      (auto simp: seed_root_def Let_def intro: AList.distinct_update)
  then show ?thesis by simp
qed

subsection \<open>The loops keep the keys of the forest\<close>

lemma propagate_pass_keys:
  "propagate_pass raw tree h had = (h', tree', had') \<Longrightarrow> map fst tree' = map fst tree"
  by (induction tree arbitrary: h had h' tree' had') (auto split: prod.splits)

lemma propagate_rule:
  assumes "propagate raw (h, tree, n) = (h', tree', n')" "P h tree"
    "\<And>h tree h' tree' had. P h tree \<Longrightarrow> propagate_pass raw tree h False = (h', tree', had) \<Longrightarrow> P h' tree'"
  shows "P h' tree'"
  using assms
proof (induction raw "(h, tree, n)" arbitrary: h tree n rule: propagate.induct)
  case (1 raw h tree n)
  obtain h1 tree1 had where p: "propagate_pass raw tree h False = (h1, tree1, had)"
    by (cases "propagate_pass raw tree h False") auto
  have P1: "P h1 tree1" using "1.prems"(2) p by (rule "1.prems"(3))
  show ?case
  proof (cases had)
    case True
    then have rec: "propagate raw (h1, tree1, n + 1) = (h', tree', n')"
      using "1.prems"(1) p by (simp add: propagate.simps[of raw h tree n])
    have nn: "\<not> \<not> had" using True by simp
    show ?thesis
      by (rule "1.hyps"[OF p[symmetric] refl nn rec P1 "1.prems"(3)])
  next
    case False
    then show ?thesis using "1.prems"(1) p P1 by (simp add: propagate.simps[of raw h tree n])
  qed
qed

lemma propagate_keys:
  assumes "propagate raw (h, tree, n) = (h', tree', n')"
  shows "map fst tree' = map fst tree"
  by (rule propagate_rule[OF assms, where P = "\<lambda>h t. map fst t = map fst tree"])
    (auto dest: propagate_pass_keys)

lemma cleaning_rule:
  assumes "P tree"
    "\<And>tree. P tree \<Longrightarrow> nodes_with_missing_parent h tree \<noteq> [] \<Longrightarrow>
       P (fold del_node (nodes_with_missing_parent h tree) tree)"
  shows "P (fst (cleaning h (tree, n)))"
  using assms
proof (induction h "(tree, n)" arbitrary: tree n rule: cleaning.induct)
  case (1 h tree n)
  show ?case
  proof (cases "nodes_with_missing_parent h tree = []")
    case True
    then show ?thesis using "1.prems"(1) by (simp add: cleaning.simps[of h tree n])
  next
    case False
    have P1: "P (fold del_node (nodes_with_missing_parent h tree) tree)"
      using "1.prems"(1) False by (rule "1.prems"(2))
    have "P (fst (cleaning h (fold del_node (nodes_with_missing_parent h tree) tree, n + 1)))"
      by (rule "1.hyps"[OF refl False P1 "1.prems"(2)])
    then show ?thesis using False
      by (simp add: cleaning.simps[of h tree n] Let_def)
  qed
qed

lemma cleaning_keys: "map fst (fst (cleaning h (tree, n))) = map fst tree"
  by (rule cleaning_rule[where P = "\<lambda>t. map fst t = map fst tree"])
    (auto simp: fold_del_node case_prod_unfold comp_def)

lemma cleaning_exit: "nodes_with_missing_parent h (fst (cleaning h (tree, n))) = []"
proof (induction h "(tree, n)" arbitrary: tree n rule: cleaning.induct)
  case (1 h tree n)
  show ?case
  proof (cases "nodes_with_missing_parent h tree = []")
    case True
    then show ?thesis by (simp add: cleaning.simps[of h tree n])
  next
    case False
    from "1.hyps"[OF refl False] False show ?thesis
      by (simp add: cleaning.simps[of h tree n] Let_def)
  qed
qed

subsection \<open>Pruning\<close>

lemma fold_delete_filter: "fold AList.delete ks xs = filter (\<lambda>(k, v). k \<notin> set ks) xs"
  by (induction ks arbitrary: xs) (auto simp: AList.delete_eq case_prod_unfold intro!: filter_cong)

lemma prune_filter:
  assumes "distinct (map fst tree)"
  shows "prune (Some T) tree = filter (\<lambda>(k, st). \<not> int (length st) < T) tree"
proof (cases "T = 0")
  case True
  then show ?thesis by (simp add: prune_def case_prod_unfold)
next
  case False
  have "(k \<notin> fst ` {x \<in> set tree. int (length (snd x)) < T}) = (\<not> int (length st) < T)"
    if "(k, st) \<in> set tree" for k st
    using that assms by (force dest: eq_key_imp_eq_value)
  then show ?thesis
    using False assms by (auto simp: prune_def fold_delete_filter case_prod_unfold intro!: filter_cong dest: eq_key_imp_eq_value)
qed

lemma obo_forest_keys:
  assumes "first_level root_id raw h = Inr (h1, tree1)" "propagate raw (h1, tree1, 0) = (h2, tree2, n)"
  shows "distinct (map fst (fst (cleaning h2 (tree2, 0))))"
  using first_level_keys[OF assms(1)] propagate_keys[OF assms(2)] by (simp add: cleaning_keys)

text \<open>
  Claim C8 (pruning). With a threshold \<open>T\<close> the function removes exactly the trees with
  fewer than \<open>T\<close> nodes: the forest it returns is the forest it returns without a
  threshold, filtered by \<open>\<not> len(sub_tree) < T\<close>, in the same order, over the same heap;
  without a threshold nothing is removed. The first two conjuncts state this of the
  pruning step on any dictionary (distinct keys), the third of the whole function.
\<close>

theorem pruning_exact:
  assumes "distinct (map fst tree)"
  shows "prune None tree = tree \<and>
     prune (Some T) tree = filter (\<lambda>(sub_tree_id, st). \<not> int (length st) < T) tree \<and>
     build_tree_from_obo_ontology parse_obo_file url root_id raw_terms (Some T) h =
       map_sum id (\<lambda>(h', forest). (h', filter (\<lambda>(sub_tree_id, st). \<not> int (length st) < T) forest))
         (build_tree_from_obo_ontology parse_obo_file url root_id raw_terms None h)"
proof -
  have "obo_forest root_id (Some T) raw h0 =
      map_sum id (\<lambda>(h', forest). (h', filter (\<lambda>(sub_tree_id, st). \<not> int (length st) < T) forest))
        (obo_forest root_id None raw h0)" for raw h0
  proof (cases "first_level root_id raw h0")
    case (Inl e)
    then show ?thesis by (simp add: obo_forest_def)
  next
    case (Inr s)
    obtain h1 tree1 where s: "s = (h1, tree1)" by (cases s)
    obtain h2 tree2 n where p: "propagate raw (h1, tree1, 0) = (h2, tree2, n)"
      by (cases "propagate raw (h1, tree1, 0)") auto
    obtain tree3 m where c: "cleaning h2 (tree2, 0) = (tree3, m)"
      by (cases "cleaning h2 (tree2, 0)") auto
    have "distinct (map fst tree3)"
      using obo_forest_keys[OF Inr[unfolded s] p] c by simp
    then show ?thesis
      using Inr s p c by (simp add: obo_forest_def prune_filter) (simp add: prune_def)
  qed
  then show ?thesis
    using assms by (simp add: prune_filter build_tree_from_obo_ontology_def split: sum.splits) (simp add: prune_def)
qed

subsection \<open>Annotation, cell by cell\<close>

definition annotated :: "entity \<Rightarrow> entity" where
  "annotated x = x\<lparr>e_imported_counts := 1.000001337, e_counts := 0.000001337, e_color := ''#FFFFFF'',
     e_description := ''Definition: '' @ pystr (e_def x) @ [CHR 0x0A] @ ''Comment: '' @ pystr (e_comment x)\<rparr>"

definition addrs :: "forest \<Rightarrow> nat list" where
  "addrs tree = concat (map (\<lambda>(k, st). map snd st) tree)"

lemma annotated_idem: "annotated (annotated x) = annotated x"
  by (simp add: annotated_def)

lemma annotate_node_eq: "annotate_node a h = (if a < length h then h[a := annotated (h ! a)] else h)"
  by (cases "a < length h") (simp_all add: annotate_node_def annotated_def Let_def list_update_beyond)

lemma length_annotate_node: "length (annotate_node a h) = length h"
  by (simp add: annotate_node_eq)

lemma nth_annotate_node:
  "annotate_node a h ! b = (if b = a \<and> a < length h then annotated (h ! a) else h ! b)"
  by (simp add: annotate_node_eq)

lemma fold_annotate_node:
  "length (fold annotate_node as h) = length h \<and>
   fold annotate_node as h ! b = (if b \<in> set as \<and> b < length h then annotated (h ! b) else h ! b)"
proof (induction as arbitrary: h)
  case Nil
  then show ?case by simp
next
  case (Cons a as)
  show ?case
    using Cons.IH[of "annotate_node a h"]
    by (auto simp: length_annotate_node nth_annotate_node annotated_idem)
qed

lemma annotate_addrs: "annotate tree h = fold annotate_node (addrs tree) h"
proof (induction tree arbitrary: h)
  case Nil
  then show ?case by (simp add: annotate_def addrs_def)
next
  case (Cons t tree)
  obtain k st where t: "t = (k, st)" by (cases t)
  have "fold (\<lambda>(key, a). annotate_node a) st h = fold annotate_node (map snd st) h" for h
    by (induction st arbitrary: h) (auto simp: case_prod_unfold)
  then show ?case
    using Cons.IH by (simp add: annotate_def addrs_def t)
qed

lemma length_annotate: "length (annotate tree h) = length h"
  by (simp add: annotate_addrs fold_annotate_node)

lemma nth_annotate:
  "annotate tree h ! b = (if b \<in> set (addrs tree) \<and> b < length h then annotated (h ! b) else h ! b)"
  by (simp add: annotate_addrs fold_annotate_node)

lemma in_addrs: "(k, st) \<in> set tree \<Longrightarrow> (key, a) \<in> set st \<Longrightarrow> a \<in> set (addrs tree)"
  by (force simp: addrs_def)

lemma prune_subset: "set (prune m tree) \<subseteq> set tree"
  by (auto simp: prune_def fold_delete_filter)

subsection \<open>A small ontology\<close>

definition mk_entity :: "string \<Rightarrow> string list \<Rightarrow> entity" where
  "mk_entity i ps = \<lparr>e_id = i, e_label = Some i, e_namespace = None, e_def = Some ''d'', e_comment = None,
     e_is_obsolete = False, e_xrefs = [], e_is_a = map (\<lambda>p. (p, [p])) ps, e_disjoint_from = [],
     e_synonyms = [], e_level = 7, e_parent = ''?'', e_imported_counts = 9, e_counts = 9,
     e_color = ''red'', e_description = ''x''\<rparr>"

definition example_heap :: "entity list" where
  "example_heap = [mk_entity ''R'' [], mk_entity ''T1'' [''R''], mk_entity ''T2'' [''R''],
     mk_entity ''T3'' [''T1'', ''T2''], mk_entity ''S'' []]"

definition example_raw :: raw_terms where
  "example_raw = [(''R'', 0), (''T1'', 1), (''T2'', 2), (''T3'', 3), (''S'', 4)]"

definition no_fetch :: parser where
  "no_fetch = (\<lambda>url h. Inl FetchError)"

lemmas graph_eval = build_tree_from_obo_ontology_def obo_forest_def first_level_def seed_term_def
  seed_root_def propagate.simps cleaning.simps visit_term_def attach_def nodes_with_missing_parent_def
  del_node_def prune_def annotate_def annotate_node_def pystr_def
  example_raw_def example_heap_def mk_entity_def no_fetch_def

subsection \<open>Pruning: an instance\<close>

definition sized_forest :: forest where
  "sized_forest =
     [(''a'', [(''a'', 0)]),
      (''b'', [(''b'', 1), (''b1'', 2), (''b2'', 3)]),
      (''c'', [(''c'', 4), (''c1'', 5), (''c2'', 6), (''c3'', 7), (''c4'', 8), (''c5'', 9),
               (''c6'', 10), (''c7'', 11), (''c8'', 12), (''c9'', 13)])]"

theorem pruning_exact_witness:
  "prune (Some 5) sized_forest = [(''c'', snd (sized_forest ! 2))] \<and>
   prune None sized_forest = sized_forest \<and>
   map_sum id snd (build_tree_from_obo_ontology no_fetch None None (Some example_raw) (Some 2) example_heap)
     = Inr [(''R'', [(''R'', 0), (''T1'', 6), (''T2'', 7), (''T3'', 8)])]"
proof -
  have d: "distinct (map fst sized_forest)" by (simp add: sized_forest_def)
  have u: "map_sum id snd (build_tree_from_obo_ontology no_fetch None None (Some example_raw) None example_heap)
     = Inr [(''R'', [(''R'', 0), (''T1'', 6), (''T2'', 7), (''T3'', 8)]), (''S'', [(''S'', 4)])]"
    by (simp add: graph_eval)
  show ?thesis
    using pruning_exact[OF d, of 5 no_fetch None None "Some example_raw" example_heap]
      pruning_exact[OF d, of 2 no_fetch None None "Some example_raw" example_heap] u
    by (auto simp: sized_forest_def map_sum_def split: sum.splits)
qed

subsection \<open>The cleaning loop\<close>

lemma missing_parent_iff:
  assumes "distinct (map fst tree)" "\<forall>(k, st) \<in> set tree. distinct (map fst st)"
    "(k, st) \<in> set tree" "(key, a) \<in> set st"
  shows "(k, key) \<in> set (nodes_with_missing_parent h tree) \<longleftrightarrow>
         e_parent (h ! a) \<noteq> '''' \<and> map_of st (e_parent (h ! a)) = None"
proof
  assume "(k, key) \<in> set (nodes_with_missing_parent h tree)"
  then obtain st' a' where m: "(k, st') \<in> set tree" "(key, a') \<in> set st'"
      "e_parent (h ! a') \<noteq> ''''" "map_of st' (e_parent (h ! a')) = None"
    unfolding nodes_with_missing_parent_def by auto
  have "st' = st" using assms(1,3) m(1) by (auto dest: eq_key_imp_eq_value)
  moreover have "distinct (map fst st)" using assms(2,3) by auto
  ultimately have "a' = a" using assms(4) m(2) by (auto dest: eq_key_imp_eq_value)
  then show "e_parent (h ! a) \<noteq> '''' \<and> map_of st (e_parent (h ! a)) = None"
    using m \<open>st' = st\<close> by simp
next
  assume "e_parent (h ! a) \<noteq> '''' \<and> map_of st (e_parent (h ! a)) = None"
  then show "(k, key) \<in> set (nodes_with_missing_parent h tree)"
    unfolding nodes_with_missing_parent_def using assms(3,4) by force
qed

text \<open>
  Claim C5 (closure after the cleaning). When the cleaning loop is left, every node of
  every tree with a non-empty \<open>parent\<close> has that parent among the keys of its own tree.
  The loop is a total function; a pass that finds a node with a missing parent makes the
  number of nodes smaller, and on a well-formed dictionary it deletes exactly the nodes
  whose parent is non-empty and not a key of their tree.
\<close>

theorem cleaning_closes:
  "(\<forall>(sub_tree_id, st) \<in> set (fst (cleaning h (tree, n))). \<forall>(key, a) \<in> set st.
      e_parent (h ! a) \<noteq> '''' \<longrightarrow> map_of st (e_parent (h ! a)) \<noteq> None) \<and>
   (nodes_with_missing_parent h tree \<noteq> [] \<longrightarrow>
      node_count (fold del_node (nodes_with_missing_parent h tree) tree) < node_count tree) \<and>
   (distinct (map fst tree) \<and> (\<forall>(sub_tree_id, st) \<in> set tree. distinct (map fst st)) \<longrightarrow>
      fold del_node (nodes_with_missing_parent h tree) tree =
        map (\<lambda>(sub_tree_id, st). (sub_tree_id,
               filter (\<lambda>(key, a). \<not> (e_parent (h ! a) \<noteq> '''' \<and> map_of st (e_parent (h ! a)) = None)) st))
          tree)"
proof (intro conjI impI)
  have "nodes_with_missing_parent h (fst (cleaning h (tree, n))) = []"
    by (rule cleaning_exit)
  then show "\<forall>(sub_tree_id, st) \<in> set (fst (cleaning h (tree, n))). \<forall>(key, a) \<in> set st.
      e_parent (h ! a) \<noteq> '''' \<longrightarrow> map_of st (e_parent (h ! a)) \<noteq> None"
    unfolding nodes_with_missing_parent_def by (fastforce simp: filter_empty_conv)
next
  assume "nodes_with_missing_parent h tree \<noteq> []"
  then show "node_count (fold del_node (nodes_with_missing_parent h tree) tree) < node_count tree"
    by (rule cleaning_decreases)
next
  assume wf: "distinct (map fst tree) \<and> (\<forall>(sub_tree_id, st) \<in> set tree. distinct (map fst st))"
  show "fold del_node (nodes_with_missing_parent h tree) tree =
        map (\<lambda>(sub_tree_id, st). (sub_tree_id,
               filter (\<lambda>(key, a). \<not> (e_parent (h ! a) \<noteq> '''' \<and> map_of st (e_parent (h ! a)) = None)) st))
          tree"
    unfolding fold_del_node
  proof (rule map_cong[OF refl])
    fix t assume t: "t \<in> set tree"
    obtain k st where kst: "t = (k, st)" by (cases t)
    have "filter (\<lambda>(key, a). (k, key) \<notin> set (nodes_with_missing_parent h tree)) st =
          filter (\<lambda>(key, a). \<not> (e_parent (h ! a) \<noteq> '''' \<and> map_of st (e_parent (h ! a)) = None)) st"
    proof (rule filter_cong[OF refl])
      fix x assume x: "x \<in> set st"
      obtain key a where ka: "x = (key, a)" by (cases x)
      show "(case x of (key, a) \<Rightarrow> (k, key) \<notin> set (nodes_with_missing_parent h tree)) =
            (case x of (key, a) \<Rightarrow> \<not> (e_parent (h ! a) \<noteq> '''' \<and> map_of st (e_parent (h ! a)) = None))"
        using missing_parent_iff[of tree k st key a h] wf t x by (simp add: kst ka)
    qed
    then show "(case t of (k, st) \<Rightarrow> (k, filter (\<lambda>(key, a). (k, key) \<notin> set (nodes_with_missing_parent h tree)) st)) =
          (case t of (sub_tree_id, st) \<Rightarrow> (sub_tree_id,
               filter (\<lambda>(key, a). \<not> (e_parent (h ! a) \<noteq> '''' \<and> map_of st (e_parent (h ! a)) = None)) st))"
      by (simp add: kst)
  qed
qed

definition orphan_heap :: "entity list" where
  "orphan_heap = [(mk_entity ''R'' [])\<lparr>e_parent := ''''\<rparr>, (mk_entity ''X'' [''R''])\<lparr>e_parent := ''Q''\<rparr>,
                  (mk_entity ''Y'' [''X''])\<lparr>e_parent := ''X''\<rparr>]"

definition orphan_forest :: forest where
  "orphan_forest = [(''R'', [(''R'', 0), (''X'', 1), (''Y'', 2)])]"

lemmas orphan_eval = orphan_heap_def orphan_forest_def mk_entity_def cleaning.simps
  nodes_with_missing_parent_def del_node_def node_count_def

theorem cleaning_closes_witness:
  "cleaning orphan_heap (orphan_forest, 0) = ([(''R'', [(''R'', 0)])], 2) \<and>
   fold del_node (nodes_with_missing_parent orphan_heap orphan_forest) orphan_forest
     = [(''R'', [(''R'', 0), (''Y'', 2)])] \<and>
   node_count (fold del_node (nodes_with_missing_parent orphan_heap orphan_forest) orphan_forest) < 3"
proof -
  have a: "nodes_with_missing_parent orphan_heap orphan_forest \<noteq> []"
    by (simp add: orphan_eval)
  have b: "distinct (map fst orphan_forest) \<and> (\<forall>(sub_tree_id, st) \<in> set orphan_forest. distinct (map fst st))"
    by (simp add: orphan_eval)
  have c: "node_count orphan_forest = 3" by (simp add: orphan_eval)
  have d: "cleaning orphan_heap (orphan_forest, 0) = ([(''R'', [(''R'', 0)])], 2)"
    by (simp add: orphan_eval)
  show ?thesis
    using cleaning_closes[of orphan_heap orphan_forest 0] a b c d
    by (simp add: orphan_eval)
qed

subsection \<open>The order of annotation and pruning\<close>

text \<open>
  The order of the specification: the trees below the threshold are pruned first and
  only the nodes of the remaining trees are annotated.
\<close>

definition obo_forest_prune_first :: "string option \<Rightarrow> int option \<Rightarrow> raw_terms \<Rightarrow> entity list \<Rightarrow> error + entity list \<times> forest" where
  "obo_forest_prune_first root_id min_node_size raw h =
     (case first_level root_id raw h of
        Inl e \<Rightarrow> Inl e
      | Inr (h1, tree1) \<Rightarrow>
          (case propagate raw (h1, tree1, 0) of
             (h2, tree2, iterations) \<Rightarrow>
               (case cleaning h2 (tree2, 0) of
                  (tree3, cleaning_iterations) \<Rightarrow>
                    (let tree4 = prune min_node_size tree3
                     in Inr (annotate tree4 h2, tree4)))))"

definition build_tree_prune_first ::
    "parser \<Rightarrow> string option \<Rightarrow> string option \<Rightarrow> raw_terms option \<Rightarrow> int option \<Rightarrow>
     entity list \<Rightarrow> error + entity list \<times> forest" where
  "build_tree_prune_first parse_obo_file url root_id raw_terms min_node_size h =
     (case (if raw_terms = None \<or> raw_terms = Some []
            then parse_obo_file url h
            else Inr (h, the raw_terms)) of
        Inl e \<Rightarrow> Inl e
      | Inr (h0, raw) \<Rightarrow> obo_forest_prune_first root_id min_node_size raw h0)"

text \<open>What a caller reads through the returned forest: every tree with the nodes it holds.\<close>

definition contents :: "entity list \<Rightarrow> forest \<Rightarrow> (string \<times> (string \<times> entity) list) list" where
  "contents h tree = map (\<lambda>(sub_tree_id, st). (sub_tree_id, map (\<lambda>(key, a). (key, h ! a)) st)) tree"

lemma contents_annotate_prune:
  "contents (annotate tree h) (prune m tree) = contents (annotate (prune m tree) h) (prune m tree)"
proof -
  have "annotate tree h ! a = annotate (prune m tree) h ! a"
    if "(k, st) \<in> set (prune m tree)" "(key, a) \<in> set st" for k st key a
  proof -
    have "a \<in> set (addrs (prune m tree))" using that by (rule in_addrs)
    moreover have "a \<in> set (addrs tree)" using that prune_subset[of m tree] by (auto intro: in_addrs)
    ultimately show ?thesis by (simp add: nth_annotate)
  qed
  then show ?thesis
    unfolding contents_def by (auto simp: case_prod_unfold)
qed

lemma obo_forest_order:
  "map_sum id (\<lambda>(h', forest). contents h' forest) (obo_forest root_id m raw h) =
   map_sum id (\<lambda>(h', forest). contents h' forest) (obo_forest_prune_first root_id m raw h) \<and>
   map_sum id fst (obo_forest root_id m raw h) = map_sum id fst (obo_forest root_id None raw h)"
  by (auto simp: obo_forest_def obo_forest_prune_first_def Let_def contents_annotate_prune
      split: sum.splits prod.splits)

definition single_heap :: "entity list" where
  "single_heap = [mk_entity ''S'' []]"

definition single_raw :: raw_terms where
  "single_raw = [(''S'', 0)]"

text \<open>
  Claim C9 as stated fails: the annotation does not touch the nodes of the final forest
  only. The ontology with the single term \<open>S\<close> and the threshold 2 gives the empty forest,
  and \<open>counts\<close> of the term object of \<open>S\<close>, which \<open>raw_terms\<close> still holds, has been
  overwritten; pruning first would have left it as it was.
\<close>

theorem annotation_after_pruning_counterexample:
  "map_sum id snd (build_tree_from_obo_ontology no_fetch None None (Some single_raw) (Some 2) single_heap) = Inr [] \<and>
   map_sum id (\<lambda>(h', forest). e_counts (h' ! 0))
     (build_tree_from_obo_ontology no_fetch None None (Some single_raw) (Some 2) single_heap) = Inr 0.000001337 \<and>
   map_sum id (\<lambda>(h', forest). e_counts (h' ! 0))
     (build_tree_prune_first no_fetch None None (Some single_raw) (Some 2) single_heap) = Inr 9 \<and>
   build_tree_from_obo_ontology no_fetch None None (Some single_raw) (Some 2) single_heap \<noteq>
   build_tree_prune_first no_fetch None None (Some single_raw) (Some 2) single_heap"
  by (simp add: graph_eval build_tree_prune_first_def obo_forest_prune_first_def single_heap_def single_raw_def)

subsection \<open>The first level, in closed form\<close>

definition seeded :: "entity \<Rightarrow> entity" where
  "seeded x = x\<lparr>e_level := 0, e_parent := ''''\<rparr>"



lemma seed_root_eq: "seed_root k a (h, tree) = (h[a := seeded (h ! a)], AList.update k [(k, a)] tree)"
  by (cases "a < length h") (simp_all add: seed_root_def seeded_def Let_def list_update_beyond)













subsection \<open>Propagation: what one visit does\<close>

text \<open>The heap only grows during the propagation, and no object that exists is changed.\<close>

definition heap_ext :: "entity list \<Rightarrow> entity list \<Rightarrow> bool" where
  "heap_ext h h' \<longleftrightarrow> length h \<le> length h' \<and> (\<forall>b < length h. h' ! b = h ! b)"

lemma heap_ext_refl: "heap_ext h h"
  by (simp add: heap_ext_def)

lemma heap_ext_trans: "heap_ext h1 h2 \<Longrightarrow> heap_ext h2 h3 \<Longrightarrow> heap_ext h1 h3"
  by (auto simp: heap_ext_def)

lemma heap_ext_snoc: "heap_ext h (h @ [x])"
  by (simp add: heap_ext_def nth_append)

text \<open>The copy of a term after lines 260 and 261, attached below the node \<open>par\<close>.\<close>

definition linked :: "entity \<Rightarrow> entity \<Rightarrow> entity" where
  "linked par x = x\<lparr>e_level := e_level par + 1, e_parent := e_id par\<rparr>"

lemma attach_eq:
  "attach tm c ia (h, st, had) =
     (case map_of st (fst ia) of
        None \<Rightarrow> (h, st, had)
      | Some p \<Rightarrow>
          if map_of st tm = None then (h[c := linked (h ! p) (h ! c)], st @ [(tm, c)], True)
          else (h, st, had))"
proof (cases "c < length h")
  case True
  then show ?thesis
    by (cases "map_of st (fst ia)")
      (auto simp: attach_def Let_def linked_def update_fresh nth_list_update)
next
  case False
  then show ?thesis
    by (cases "map_of st (fst ia)")
      (auto simp: attach_def Let_def update_fresh list_update_beyond)
qed

lemma fold_attach_skip:
  "map_of st tm \<noteq> None \<Longrightarrow> fold (attach tm c) ias (h, st, had) = (h, st, had)"
  by (induction ias) (auto simp: attach_eq split: option.splits)

lemma fold_attach_cases:
  "(fold (attach tm c) ias (h, st, had) = (h, st, had) \<and>
      (map_of st tm \<noteq> None \<or> (\<forall>ia \<in> set ias. map_of st (fst ia) = None))) \<or>
   (\<exists>ia p. map_of st tm = None \<and> ia \<in> set ias \<and> map_of st (fst ia) = Some p \<and>
      fold (attach tm c) ias (h, st, had) = (h[c := linked (h ! p) (h ! c)], st @ [(tm, c)], True))"
proof (cases "map_of st tm = None")
  case False
  then show ?thesis by (simp add: fold_attach_skip)
next
  case fresh: True
  show ?thesis
  proof (induction ias)
    case Nil
    then show ?case by simp
  next
    case (Cons ia ias)
    show ?case
    proof (cases "map_of st (fst ia)")
      case None
      then have "fold (attach tm c) (ia # ias) (h, st, had) = fold (attach tm c) ias (h, st, had)"
        by (simp add: attach_eq)
      with Cons.IH None show ?thesis by auto
    next
      case (Some p)
      have "attach tm c ia (h, st, had) = (h[c := linked (h ! p) (h ! c)], st @ [(tm, c)], True)"
        using Some fresh by (simp add: attach_eq)
      moreover have "map_of (st @ [(tm, c)]) tm \<noteq> None"
        by (simp add: map_of_None_iff)
      ultimately have "fold (attach tm c) (ia # ias) (h, st, had) =
          (h[c := linked (h ! p) (h ! c)], st @ [(tm, c)], True)"
        by (simp add: fold_attach_skip)
      with Some fresh show ?thesis
        by (intro disjI2 exI[of _ ia] exI[of _ p]) simp
    qed
  qed
qed

lemma visit_term_cases:
  "(visit_term (tm, a) (h, st, had) = (h @ [h ! a], st, had) \<and>
      (map_of st tm \<noteq> None \<or> (\<forall>ia \<in> set (e_is_a (h ! a)). map_of st (fst ia) = None))) \<or>
   (\<exists>ia p. map_of st tm = None \<and> ia \<in> set (e_is_a (h ! a)) \<and> map_of st (fst ia) = Some p \<and>
      visit_term (tm, a) (h, st, had) =
        (h @ [linked ((h @ [h ! a]) ! p) (h ! a)], st @ [(tm, length h)], True))"
  using fold_attach_cases[of tm "length h" "e_is_a (h ! a)" "h @ [h ! a]" st had]
  by (simp add: visit_term_def)

lemma visit_term_ext:
  assumes "visit_term x (h, st, had) = (h', st', had')"
  shows "heap_ext h h' \<and> length h' = Suc (length h) \<and> (st' = st \<or> st' = st @ [(fst x, length h)])"
proof -
  obtain tm a where x: "x = (tm, a)" by (cases x)
  show ?thesis
    using visit_term_cases[of tm a h st had] assms
    by (auto simp: x heap_ext_snoc)
qed

lemma fold_visit_ext:
  assumes "fold visit_term xs (h, st, had) = (h', st', had')"
  shows "heap_ext h h' \<and> (\<exists>new. st' = st @ new \<and> (\<forall>(key, a) \<in> set new. length h \<le> a \<and> a < length h'))"
  using assms
proof (induction xs arbitrary: h st had)
  case Nil
  then show ?case by (simp add: heap_ext_refl)
next
  case (Cons x xs)
  obtain h1 st1 had1 where v: "visit_term x (h, st, had) = (h1, st1, had1)"
    by (cases "visit_term x (h, st, had)") auto
  from visit_term_ext[OF v] have e: "heap_ext h h1" "length h1 = Suc (length h)"
    and s: "st1 = st \<or> st1 = st @ [(fst x, length h)]" by auto
  have "fold visit_term xs (h1, st1, had1) = (h', st', had')"
    using Cons.prems v by simp
  from Cons.IH[OF this] obtain new where
    e2: "heap_ext h1 h'" and n: "st' = st1 @ new" "\<forall>(key, a) \<in> set new. length h1 \<le> a \<and> a < length h'"
    by auto
  have len: "length h1 \<le> length h'" using e2 by (simp add: heap_ext_def)
  from s show ?case
  proof
    assume "st1 = st"
    then show ?thesis
      using heap_ext_trans[OF e(1) e2] n e(2) by (intro conjI exI[of _ new]) auto
  next
    assume "st1 = st @ [(fst x, length h)]"
    then show ?thesis
      using heap_ext_trans[OF e(1) e2] n e(2) len
      by (intro conjI exI[of _ "(fst x, length h) # new"]) auto
  qed
qed

lemma fold_visit_rule:
  assumes "I h st" "set xs \<subseteq> set raw"
    "\<And>x h st had h' st' had'. x \<in> set raw \<Longrightarrow> I h st \<Longrightarrow>
        visit_term x (h, st, had) = (h', st', had') \<Longrightarrow> I h' st'"
    "fold visit_term xs (h, st, had) = (h', st', had')"
  shows "I h' st'"
  using assms(1,2,4)
proof (induction xs arbitrary: h st had)
  case Nil
  then show ?case by simp
next
  case (Cons x xs)
  obtain h1 st1 had1 where v: "visit_term x (h, st, had) = (h1, st1, had1)"
    by (cases "visit_term x (h, st, had)") auto
  have "x \<in> set raw" using Cons.prems(2) by simp
  then have "I h1 st1" using Cons.prems(1) v by (rule assms(3))
  moreover have "set xs \<subseteq> set raw" using Cons.prems(2) by simp
  moreover have "fold visit_term xs (h1, st1, had1) = (h', st', had')"
    using Cons.prems(3) v by simp
  ultimately show ?case by (rule Cons.IH)
qed

lemma pass_unfold:
  assumes "propagate_pass raw ((k, st) # rest) h had = (h', tree', had')"
  obtains h1 st1 had1 rest2 where
    "fold visit_term raw (h, st, had) = (h1, st1, had1)"
    "propagate_pass raw rest h1 had1 = (h', rest2, had')"
    "tree' = (k, st1) # rest2"
  using assms by (auto split: prod.splits)

lemma pass_ext:
  "propagate_pass raw tree h had = (h', tree', had') \<Longrightarrow> heap_ext h h'"
proof (induction tree arbitrary: h had h' tree' had')
  case Nil
  then show ?case by (simp add: heap_ext_refl)
next
  case (Cons t tree)
  obtain k st where t: "t = (k, st)" by (cases t)
  from Cons.prems[unfolded t] obtain h1 st1 had1 rest2 where
    f: "fold visit_term raw (h, st, had) = (h1, st1, had1)"
    and p: "propagate_pass raw tree h1 had1 = (h', rest2, had')"
    by (rule pass_unfold)
  from fold_visit_ext[OF f] Cons.IH[OF p] show ?case by (blast intro: heap_ext_trans)
qed

lemma pass_rule:
  assumes "\<forall>(k, st) \<in> set tree. I h k st"
    "\<And>x h st had h' st' had' k. x \<in> set raw \<Longrightarrow> I h k st \<Longrightarrow>
        visit_term x (h, st, had) = (h', st', had') \<Longrightarrow> I h' k st'"
    "\<And>h h' k st. I h k st \<Longrightarrow> heap_ext h h' \<Longrightarrow> I h' k st"
    "propagate_pass raw tree h had = (h', tree', had')"
  shows "\<forall>(k, st) \<in> set tree'. I h' k st"
  using assms(1,4)
proof (induction tree arbitrary: h had h' tree' had')
  case Nil
  then show ?case by simp
next
  case (Cons t tree)
  obtain k st where t: "t = (k, st)" by (cases t)
  from Cons.prems(2)[unfolded t] obtain h1 st1 had1 rest2 where
    f: "fold visit_term raw (h, st, had) = (h1, st1, had1)"
    and p: "propagate_pass raw tree h1 had1 = (h', rest2, had')"
    and r: "tree' = (k, st1) # rest2"
    by (rule pass_unfold)
  have e1: "heap_ext h h1" using fold_visit_ext[OF f] by simp
  have e2: "heap_ext h1 h'" using p by (rule pass_ext)
  have "I h k st" using Cons.prems(1) by (simp add: t)
  then have "I h1 k st1"
    by (rule fold_visit_rule[where I = "\<lambda>h st. I h k st" and raw = raw, OF _ subset_refl _ f])
      (rule assms(2))
  then have head: "I h' k st1" using e2 by (rule assms(3))
  have "\<forall>(k, st) \<in> set tree. I h1 k st"
    using Cons.prems(1) e1 assms(3) by fastforce
  then have "\<forall>(k, st) \<in> set rest2. I h' k st" using p by (rule Cons.IH)
  with head show ?case by (simp add: r)
qed


subsection \<open>Every address of the forest is an object of the heap\<close>

definition addr_ok :: "entity list \<Rightarrow> forest \<Rightarrow> bool" where
  "addr_ok h tree \<longleftrightarrow> (\<forall>(k, st) \<in> set tree. \<forall>(key, a) \<in> set st. a < length h)"

lemma set_update_subset: "set (AList.update k v al) \<subseteq> insert (k, v) (set al)"
  by (induction al) auto

lemma seed_root_length: "length (fst (seed_root k a s)) = length (fst s)"
  by (cases s) (simp add: seed_root_eq)

lemma first_level_addr_ok:
  assumes "first_level root_id raw h = Inr (h1, tree1)" "\<forall>(tm, a) \<in> set raw. a < length h"
  shows "length h1 = length h \<and> addr_ok h1 tree1"
proof -
  let ?P = "\<lambda>s. length (fst s) = length h \<and> addr_ok (fst s) (snd s)"
  have "?P (h1, tree1)"
  proof (rule first_level_rule[OF assms(1), where P = ?P])
    show "?P (h, [])" by (simp add: addr_ok_def)
  next
    fix k a s assume ka: "(k, a) \<in> set raw" and P: "?P s"
    obtain h0 t0 where s: "s = (h0, t0)" by (cases s)
    have a: "a < length h" using assms(2) ka by auto
    have "set (AList.update k [(k, a)] t0) \<subseteq> insert (k, [(k, a)]) (set t0)"
      by (rule set_update_subset)
    then show "?P (seed_root k a s)"
      using P a unfolding s seed_root_eq addr_ok_def by fastforce
  qed
  then show ?thesis by simp
qed

lemma pass_addr_ok:
  assumes "addr_ok h tree" "propagate_pass raw tree h had = (h', tree', had')"
  shows "addr_ok h' tree'"
proof -
  let ?I = "\<lambda>h (k::string) st. \<forall>(key, a) \<in> set (st::sub_tree). a < length (h::entity list)"
  have "\<forall>(k, st) \<in> set tree'. ?I h' k st"
  proof (rule pass_rule[where I = ?I, OF _ _ _ assms(2)])
    show "\<forall>(k, st) \<in> set tree. ?I h k st" using assms(1) by (simp add: addr_ok_def)
  next
    fix x h st had h' st' had' and k :: string
    assume "?I h k st" "visit_term x (h, st, had) = (h', st', had')"
    then show "?I h' k st'" using visit_term_ext[of x h st had h' st' had'] by fastforce
  next
    fix h h' :: "entity list" and k :: string and st :: sub_tree
    assume "?I h k st" "heap_ext h h'"
    then show "?I h' k st" by (fastforce simp: heap_ext_def)
  qed
  then show ?thesis by (simp add: addr_ok_def)
qed

lemma propagate_addr_ok:
  assumes "propagate raw (h, tree, n) = (h', tree', n')" "addr_ok h tree"
  shows "addr_ok h' tree'"
  using assms(2) by (rule propagate_rule[OF assms(1), where P = addr_ok]) (rule pass_addr_ok)

subsection \<open>The cleaning only deletes\<close>

definition sub_forest :: "forest \<Rightarrow> forest \<Rightarrow> bool" where
  "sub_forest t t0 \<longleftrightarrow> (\<forall>k st. (k, st) \<in> set t \<longrightarrow> (\<exists>st0. (k, st0) \<in> set t0 \<and> set st \<subseteq> set st0))"

lemma sub_forestD:
  "sub_forest t t0 \<Longrightarrow> (k, st) \<in> set t \<Longrightarrow> \<exists>st0. (k, st0) \<in> set t0 \<and> set st \<subseteq> set st0"
  by (simp add: sub_forest_def)

lemma sub_forest_refl: "sub_forest t t"
  unfolding sub_forest_def by blast

lemma sub_forest_trans:
  assumes "sub_forest a b" "sub_forest b c"
  shows "sub_forest a c"
  unfolding sub_forest_def
proof (intro allI impI)
  fix k st assume "(k, st) \<in> set a"
  then obtain st1 where 1: "(k, st1) \<in> set b" "set st \<subseteq> set st1"
    using sub_forestD[OF assms(1)] by blast
  then obtain st2 where 2: "(k, st2) \<in> set c" "set st1 \<subseteq> set st2"
    using sub_forestD[OF assms(2)] by blast
  from 1 2 show "\<exists>st0. (k, st0) \<in> set c \<and> set st \<subseteq> set st0" by blast
qed

lemma sub_forest_filter:
  "sub_forest (map (\<lambda>(k, st). (k, filter (Q k) st)) t) t"
  unfolding sub_forest_def
proof (intro allI impI)
  fix k st assume "(k, st) \<in> set (map (\<lambda>(k, st). (k, filter (Q k) st)) t)"
  then obtain st0 where "(k, st0) \<in> set t" "st = filter (Q k) st0" by auto
  then show "\<exists>st0. (k, st0) \<in> set t \<and> set st \<subseteq> set st0" by (intro exI[of _ st0]) simp
qed

lemma cleaning_sub_forest: "sub_forest (fst (cleaning h (tree, n))) tree"
proof (rule cleaning_rule[where P = "\<lambda>t. sub_forest t tree"])
  show "sub_forest tree tree" by (rule sub_forest_refl)
next
  fix t assume t: "sub_forest t tree"
  have "sub_forest (fold del_node (nodes_with_missing_parent h t) t) t"
    unfolding fold_del_node
    by (rule sub_forest_filter[where Q = "\<lambda>k (key, a). (k, key) \<notin> set (nodes_with_missing_parent h t)"])
  then show "sub_forest (fold del_node (nodes_with_missing_parent h t) t) tree"
    using t by (rule sub_forest_trans)
qed


lemma sub_forest_addr_ok:
  assumes "sub_forest t t0" "addr_ok h t0"
  shows "addr_ok h t"
  unfolding addr_ok_def
proof (intro ballI, clarify)
  fix k st key a assume "(k, st) \<in> set t" "(key, a) \<in> set st"
  then obtain st0 where "(k, st0) \<in> set t0" "(key, a) \<in> set st0"
    using sub_forestD[OF assms(1)] by blast
  then show "a < length h" using assms(2) by (auto simp: addr_ok_def)
qed

text \<open>The stages of \<open>obo_forest\<close>, named.\<close>

lemma obo_forest_stages:
  assumes "obo_forest root_id m raw h = Inr (h', forest)"
  obtains h1 tree1 h2 tree2 n where
    "first_level root_id raw h = Inr (h1, tree1)"
    "propagate raw (h1, tree1, 0) = (h2, tree2, n)"
    "h' = annotate (fst (cleaning h2 (tree2, 0))) h2"
    "forest = prune m (fst (cleaning h2 (tree2, 0)))"
proof (cases "first_level root_id raw h")
  case (Inl e)
  then show ?thesis using assms by (simp add: obo_forest_def)
next
  case (Inr s)
  obtain h1 tree1 where s: "s = (h1, tree1)" by (cases s)
  obtain h2 tree2 n where p: "propagate raw (h1, tree1, 0) = (h2, tree2, n)"
    by (cases "propagate raw (h1, tree1, 0)") auto
  obtain tree3 c where c: "cleaning h2 (tree2, 0) = (tree3, c)"
    by (cases "cleaning h2 (tree2, 0)") auto
  show ?thesis
    using assms Inr s p c by (intro that[of h1 tree1 h2 tree2 n]) (simp_all add: obo_forest_def)
qed

lemma obo_forest_annotated:
  assumes "obo_forest root_id m raw h = Inr (h', forest)" "\<forall>(tm, a) \<in> set raw. a < length h"
    "(k, st) \<in> set forest" "(key, a) \<in> set st"
  shows "a < length h' \<and> (\<exists>x. h' ! a = annotated x)"
proof -
  from assms(1) obtain h1 tree1 h2 tree2 n where
    f: "first_level root_id raw h = Inr (h1, tree1)"
    and p: "propagate raw (h1, tree1, 0) = (h2, tree2, n)"
    and h': "h' = annotate (fst (cleaning h2 (tree2, 0))) h2"
    and fo: "forest = prune m (fst (cleaning h2 (tree2, 0)))"
    by (rule obo_forest_stages)
  let ?t3 = "fst (cleaning h2 (tree2, 0))"
  have "addr_ok h1 tree1" using first_level_addr_ok[OF f assms(2)] by simp
  then have "addr_ok h2 tree2" by (rule propagate_addr_ok[OF p])
  then have ok3: "addr_ok h2 ?t3" by (rule sub_forest_addr_ok[OF cleaning_sub_forest])
  have in3: "(k, st) \<in> set ?t3" using assms(3) prune_subset[of m ?t3] by (auto simp: fo)
  then have a: "a < length h2" using ok3 assms(4) by (auto simp: addr_ok_def)
  have "a \<in> set (addrs ?t3)" using in3 assms(4) by (rule in_addrs)
  then have "h' ! a = annotated (h2 ! a)" using a by (simp add: h' nth_annotate)
  then show ?thesis using a by (auto simp: h' length_annotate)
qed

lemma annotated_fields:
  "e_imported_counts (annotated x) = 1.000001337 \<and> e_counts (annotated x) = 0.000001337 \<and>
   e_color (annotated x) = ''#FFFFFF'' \<and>
   e_description (annotated x) =
     ''Definition: '' @ pystr (e_def (annotated x)) @ [CHR 0x0A] @ ''Comment: '' @ pystr (e_comment (annotated x))"
  by (simp add: annotated_def)

lemma obo_forest_all_annotated:
  assumes "obo_forest root_id None raw h = Inr (hN, forestN)"
    "(k, st) \<in> set forestN" "(key, a) \<in> set st" "a < length hN"
  shows "hN ! a = annotated (hN ! a)"
proof -
  from assms(1) obtain h1 tree1 h2 tree2 n where
    hN: "hN = annotate (fst (cleaning h2 (tree2, 0))) h2"
    and fo: "forestN = prune None (fst (cleaning h2 (tree2, 0)))"
    by (rule obo_forest_stages)
  let ?t3 = "fst (cleaning h2 (tree2, 0))"
  have "forestN = ?t3" using fo by (simp add: prune_def)
  then have "a \<in> set (addrs ?t3)" using assms(2,3) by (auto intro: in_addrs)
  moreover have "a < length h2" using assms(4) by (simp add: hN length_annotate)
  ultimately have "hN ! a = annotated (h2 ! a)" by (simp add: hN nth_annotate)
  then show ?thesis by (simp add: annotated_idem)
qed

lemma build_tree_cases:
  assumes "build_tree_from_obo_ontology parse_obo_file url root_id raw_terms m h = Inr r"
  shows "\<exists>raw0 h0. obo_forest root_id m raw0 h0 = Inr r \<and>
    (\<forall>raw. raw_terms = Some raw \<longrightarrow> raw \<noteq> [] \<longrightarrow> raw0 = raw \<and> h0 = h)"
proof (cases "raw_terms = None \<or> raw_terms = Some []")
  case True
  then obtain h0 raw0 where "parse_obo_file url h = Inr (h0, raw0)" "obo_forest root_id m raw0 h0 = Inr r"
    using assms by (auto simp: build_tree_from_obo_ontology_def split: sum.splits)
  then show ?thesis using True by (intro exI[of _ raw0] exI[of _ h0]) auto
next
  case False
  then obtain raw where "raw_terms = Some raw" "raw \<noteq> []" by auto
  then show ?thesis using assms
    by (intro exI[of _ raw] exI[of _ h]) (auto simp: build_tree_from_obo_ontology_def)
qed

text \<open>
  Claim C9, amended (the order of annotation and pruning). The function annotates first
  and prunes afterwards. What the returned forest holds, tree by tree and node by node,
  is what pruning first and annotating afterwards would give (first conjunct). The heap
  the function leaves does not depend on the threshold (second conjunct), and in it every
  node of every tree of the unpruned forest, the forest returned without a threshold,
  carries the four annotations (third conjunct): the nodes of the trees that pruning
  removes have been annotated too. When \<open>raw_terms\<close> is given and its addresses are objects
  of the heap, so is every address of the forest (fourth conjunct).
\<close>

theorem annotation_before_pruning:
  "map_sum id (\<lambda>(h', forest). contents h' forest)
     (build_tree_from_obo_ontology parse_obo_file url root_id raw_terms min_node_size h) =
   map_sum id (\<lambda>(h', forest). contents h' forest)
     (build_tree_prune_first parse_obo_file url root_id raw_terms min_node_size h) \<and>
   map_sum id fst (build_tree_from_obo_ontology parse_obo_file url root_id raw_terms min_node_size h) =
   map_sum id fst (build_tree_from_obo_ontology parse_obo_file url root_id raw_terms None h) \<and>
   (\<forall>hN forestN.
      build_tree_from_obo_ontology parse_obo_file url root_id raw_terms None h = Inr (hN, forestN) \<longrightarrow>
      (\<forall>(sub_tree_id, st) \<in> set forestN. \<forall>(key, a) \<in> set st. a < length hN \<longrightarrow>
         e_imported_counts (hN ! a) = 1.000001337 \<and> e_counts (hN ! a) = 0.000001337 \<and>
         e_color (hN ! a) = ''#FFFFFF'' \<and>
         e_description (hN ! a) =
           ''Definition: '' @ pystr (e_def (hN ! a)) @ [CHR 0x0A] @ ''Comment: '' @ pystr (e_comment (hN ! a)))) \<and>
   (\<forall>raw hN forestN.
      raw_terms = Some raw \<and> raw \<noteq> [] \<and> (\<forall>(tm, a) \<in> set raw. a < length h) \<and>
      build_tree_from_obo_ontology parse_obo_file url root_id raw_terms None h = Inr (hN, forestN) \<longrightarrow>
      (\<forall>(sub_tree_id, st) \<in> set forestN. \<forall>(key, a) \<in> set st. a < length hN))"
proof (intro conjI allI impI)
  show "map_sum id (\<lambda>(h', forest). contents h' forest)
     (build_tree_from_obo_ontology parse_obo_file url root_id raw_terms min_node_size h) =
   map_sum id (\<lambda>(h', forest). contents h' forest)
     (build_tree_prune_first parse_obo_file url root_id raw_terms min_node_size h)"
    using obo_forest_order
    by (auto simp: build_tree_from_obo_ontology_def build_tree_prune_first_def split: sum.splits)
next
  show "map_sum id fst (build_tree_from_obo_ontology parse_obo_file url root_id raw_terms min_node_size h) =
   map_sum id fst (build_tree_from_obo_ontology parse_obo_file url root_id raw_terms None h)"
    using obo_forest_order
    by (auto simp: build_tree_from_obo_ontology_def split: sum.splits)
next
  fix hN forestN
  assume b: "build_tree_from_obo_ontology parse_obo_file url root_id raw_terms None h = Inr (hN, forestN)"
  from build_tree_cases[OF b] obtain raw0 h0 where o: "obo_forest root_id None raw0 h0 = Inr (hN, forestN)"
    by blast
  show "\<forall>(sub_tree_id, st) \<in> set forestN. \<forall>(key, a) \<in> set st. a < length hN \<longrightarrow>
         e_imported_counts (hN ! a) = 1.000001337 \<and> e_counts (hN ! a) = 0.000001337 \<and>
         e_color (hN ! a) = ''#FFFFFF'' \<and>
         e_description (hN ! a) =
           ''Definition: '' @ pystr (e_def (hN ! a)) @ [CHR 0x0A] @ ''Comment: '' @ pystr (e_comment (hN ! a))"
  proof (intro ballI, clarify)
    fix k st key a assume "(k, st) \<in> set forestN" "(key, a) \<in> set st" "a < length hN"
    with o have "hN ! a = annotated (hN ! a)" by (rule obo_forest_all_annotated)
    then show "e_imported_counts (hN ! a) = 1.000001337 \<and> e_counts (hN ! a) = 0.000001337 \<and>
         e_color (hN ! a) = ''#FFFFFF'' \<and>
         e_description (hN ! a) =
           ''Definition: '' @ pystr (e_def (hN ! a)) @ [CHR 0x0A] @ ''Comment: '' @ pystr (e_comment (hN ! a))"
      using annotated_fields[of "hN ! a"] by simp
  qed
next
  fix raw hN forestN
  assume a: "raw_terms = Some raw \<and> raw \<noteq> [] \<and> (\<forall>(tm, a) \<in> set raw. a < length h) \<and>
      build_tree_from_obo_ontology parse_obo_file url root_id raw_terms None h = Inr (hN, forestN)"
  then have b: "build_tree_from_obo_ontology parse_obo_file url root_id raw_terms None h = Inr (hN, forestN)"
    and rt: "raw_terms = Some raw" "raw \<noteq> []" and wf: "\<forall>(tm, a) \<in> set raw. a < length h"
    by blast+
  from build_tree_cases[OF b] rt have o': "obo_forest root_id None raw h = Inr (hN, forestN)"
    by auto
  show "\<forall>(sub_tree_id, st) \<in> set forestN. \<forall>(key, a) \<in> set st. a < length hN"
  proof (intro ballI, clarify)
    fix k st key a assume "(k, st) \<in> set forestN" "(key, a) \<in> set st"
    with obo_forest_annotated[OF o' wf] show "a < length hN" by blast
  qed
qed

theorem annotation_before_pruning_witness:
  "map_sum id (\<lambda>(h', forest). (forest, e_counts (h' ! 0), e_color (h' ! 0)))
     (build_tree_from_obo_ontology no_fetch None None (Some single_raw) (Some 2) single_heap)
   = Inr ([], 0.000001337, ''#FFFFFF'')"
proof -
  let ?b = "\<lambda>m. build_tree_from_obo_ontology no_fetch None None (Some single_raw) m single_heap"
  have n: "map_sum id (\<lambda>(h', forest). (length h', forest)) (?b None) = Inr (2, [(''S'', [(''S'', 0)])])"
    by (simp add: graph_eval single_heap_def single_raw_def)
  have p: "map_sum id snd (?b (Some 2)) = Inr []"
    by (simp add: graph_eval single_heap_def single_raw_def)
  from n obtain hN where hN: "?b None = Inr (hN, [(''S'', [(''S'', 0)])])" "length hN = 2"
    by (cases "?b None") auto
  note t = annotation_before_pruning[of no_fetch None None "Some single_raw" "Some 2" single_heap]
  note t3 = t[THEN conjunct2, THEN conjunct2, THEN conjunct1, THEN spec, THEN spec, THEN mp, OF hN(1)]
  have c: "e_counts (hN ! 0) = 0.000001337 \<and> e_color (hN ! 0) = ''#FFFFFF''"
    using t3 hN(2) by simp
  from t[THEN conjunct2, THEN conjunct1] hN(1)
  have "map_sum id fst (?b (Some 2)) = Inr hN" by simp
  with p c show ?thesis by (cases "?b (Some 2)") auto
qed

section \<open>Graph mode: every term under its own id, and the copies of a term\<close>

subsection \<open>Trees whose nodes are stored under their own id\<close>


















subsection \<open>With every node under its own id the cleaning finds nothing\<close>



subsection \<open>The fixed point of the propagation\<close>






subsection \<open>Copies are owned by one tree\<close>















subsection \<open>The stages of the build when every term is stored under its id\<close>






section \<open>Flat mode: what the loop keeps\<close>

lemma read_rows_rule:
  assumes "P ([], [], [], [])"
    "\<And>r i s. r \<in> set rows \<Longrightarrow> i \<in> set (r_ids r) \<Longrightarrow> P s \<Longrightarrow> P (read_node r i s)"
  shows "P (read_rows rows)"
proof -
  have inner: "P (fold (read_node r) ids s)" if "r \<in> set rows" "set ids \<subseteq> set (r_ids r)" "P s" for r ids s
    using that
  proof (induction ids arbitrary: s)
    case Nil
    then show ?case by simp
  next
    case (Cons i ids)
    have "P (read_node r i s)" using Cons.prems by (intro assms(2)) auto
    then have "P (fold (read_node r) ids (read_node r i s))"
      using Cons.prems by (intro Cons.IH) auto
    then show ?case by simp
  qed
  have "P (fold (\<lambda>r s. fold (read_node r) (r_ids r) s) rs s)" if "set rs \<subseteq> set rows" "P s" for rs s
    using that
  proof (induction rs arbitrary: s)
    case Nil
    then show ?case by simp
  next
    case (Cons r rs)
    have "P (fold (read_node r) (r_ids r) s)" using Cons.prems by (intro inner) auto
    then have "P (fold (\<lambda>r s. fold (read_node r) (r_ids r) s) rs (fold (read_node r) (r_ids r) s))"
      using Cons.prems by (intro Cons.IH) auto
    then show ?case by simp
  qed
  then show ?thesis unfolding read_rows_def using assms(1) by simp
qed

lemma relevel_twice: "(x\<lparr>n_level := l\<rparr>)\<lparr>n_level := m\<rparr> = x\<lparr>n_level := m\<rparr>"
  by simp

lemma scan_trees_shape:
  assumes "scan_trees a idx tree h d = (tree', h', d')"
  shows "length h' = length h \<and> (\<forall>b. b \<noteq> a \<longrightarrow> h' ! b = h ! b) \<and>
     (\<exists>l. h' ! a = (h ! a)\<lparr>n_level := l\<rparr>) \<and>
     (\<forall>k st'. (k, st') \<in> set tree' \<longrightarrow>
        (\<exists>st. (k, st) \<in> set tree \<and> (st' = st \<or> st' = AList.update (n_id (h ! a)) a st)))"
  using assms
proof (induction tree arbitrary: h d tree' h' d')
  case Nil
  then have "h' = h" "tree' = []" by simp_all
  moreover have "h ! a = (h ! a)\<lparr>n_level := n_level (h ! a)\<rparr>" by simp
  ultimately show ?case by (simp del: node.update_convs) (rule exI[of _ "n_level (h ! a)"], simp)
next
  case (Cons t tree)
  obtain k st where t: "t = (k, st)" by (cases t)
  show ?case
  proof (cases "map_of st (n_parent (h ! a))")
    case None
    obtain r1 h1 d1 where s: "scan_trees a idx tree h d = (r1, h1, d1)"
      by (cases "scan_trees a idx tree h d") auto
    have res: "tree' = (k, st) # r1" "h' = h1" "d' = d1"
      using Cons.prems None s by (simp_all add: t)
    from Cons.IH[OF s] have l: "length h1 = length h" and o: "\<forall>b. b \<noteq> a \<longrightarrow> h1 ! b = h ! b"
      and a1: "\<exists>l. h1 ! a = (h ! a)\<lparr>n_level := l\<rparr>"
      and t1: "\<And>k st'. (k, st') \<in> set r1 \<Longrightarrow>
        \<exists>st. (k, st) \<in> set tree \<and> (st' = st \<or> st' = AList.update (n_id (h ! a)) a st)"
      by blast+
    have t': "\<exists>st0. (k', st0) \<in> set (t # tree) \<and> (st' = st0 \<or> st' = AList.update (n_id (h ! a)) a st0)"
      if "(k', st') \<in> set tree'" for k' st'
    proof (cases "(k', st') = (k, st)")
      case True
      then show ?thesis by (intro exI[of _ st]) (simp add: t)
    next
      case False
      then have "(k', st') \<in> set r1" using that res(1) by auto
      from t1[OF this] obtain st0 where "(k', st0) \<in> set tree"
        "st' = st0 \<or> st' = AList.update (n_id (h ! a)) a st0" by blast
      then show ?thesis by (intro exI[of _ st0]) simp
    qed
    show ?thesis unfolding res(2) using l o a1 t' by blast
  next
    case (Some p)
    define h1 where "h1 = h[a := (h ! a)\<lparr>n_level := n_level (h ! p) + 1\<rparr>]"
    obtain r2 h2 d2 where s: "scan_trees a idx tree h1 (d @ [idx]) = (r2, h2, d2)"
      by (cases "scan_trees a idx tree h1 (d @ [idx])") auto
    have res: "tree' = (k, AList.update (n_id (h1 ! a)) a st) # r2" "h' = h2" "d' = d2"
      using Cons.prems Some s by (simp_all add: t h1_def Let_def)
    have l1: "length h1 = length h" by (simp add: h1_def)
    have o1: "h1 ! b = h ! b" if "b \<noteq> a" for b using that by (simp add: h1_def)
    have a1: "\<exists>l. h1 ! a = (h ! a)\<lparr>n_level := l\<rparr>"
    proof (cases "a < length h")
      case True
      then show ?thesis unfolding h1_def by (intro exI[of _ "n_level (h ! p) + 1"]) simp
    next
      case False
      then have "h1 = h" unfolding h1_def by (intro list_update_beyond) simp
      then show ?thesis by (intro exI[of _ "n_level (h ! a)"]) simp
    qed
    then obtain l where la: "h1 ! a = (h ! a)\<lparr>n_level := l\<rparr>" by blast
    have id1: "n_id (h1 ! a) = n_id (h ! a)" unfolding la by simp
    from Cons.IH[OF s] have l2: "length h2 = length h1" and o2: "\<And>b. b \<noteq> a \<Longrightarrow> h2 ! b = h1 ! b"
      and a2: "\<exists>l. h2 ! a = (h1 ! a)\<lparr>n_level := l\<rparr>"
      and t2: "\<And>k st'. (k, st') \<in> set r2 \<Longrightarrow>
        \<exists>st. (k, st) \<in> set tree \<and> (st' = st \<or> st' = AList.update (n_id (h1 ! a)) a st)"
      by blast+
    from a2 obtain m where "h2 ! a = (h1 ! a)\<lparr>n_level := m\<rparr>" by blast
    then have "h2 ! a = (h ! a)\<lparr>n_level := m\<rparr>" unfolding la by simp
    then have a': "\<exists>l. h2 ! a = (h ! a)\<lparr>n_level := l\<rparr>" by blast
    have t': "\<exists>st0. (k', st0) \<in> set (t # tree) \<and> (st' = st0 \<or> st' = AList.update (n_id (h ! a)) a st0)"
      if "(k', st') \<in> set tree'" for k' st'
    proof (cases "(k', st') = (k, AList.update (n_id (h1 ! a)) a st)")
      case True
      then show ?thesis by (intro exI[of _ st]) (simp add: t id1)
    next
      case False
      then have "(k', st') \<in> set r2" using that res(1) by auto
      from t2[OF this] obtain st0 where "(k', st0) \<in> set tree"
        "st' = st0 \<or> st' = AList.update (n_id (h1 ! a)) a st0" by blast
      then show ?thesis by (intro exI[of _ st0]) (simp add: id1)
    qed
    have l: "length h2 = length h" using l1 l2 by simp
    have o: "\<forall>b. b \<noteq> a \<longrightarrow> h2 ! b = h ! b" using o1 o2 by simp
    show ?thesis unfolding res(2) using l o a' t' by blast
  qed
qed

lemma process_pending_rule:
  assumes "process_pending idx q (h, tree, d, out) = (h', tree', d', out')"
    "I h tree" "set q \<subseteq> set tp"
    "\<And>att a h tree idx d tree' h' d'. (att, a) \<in> set tp \<Longrightarrow> I h tree \<Longrightarrow>
        scan_trees a idx tree h d = (tree', h', d') \<Longrightarrow> I h' tree'"
  shows "I h' tree'"
  using assms(1,2,3)
proof (induction q arbitrary: idx h tree d out)
  case Nil
  then show ?case by simp
next
  case (Cons x q)
  obtain att a where x: "x = (att, a)" by (cases x)
  show ?case
  proof (cases "att \<ge> 20")
    case True
    then have "process_pending (Suc idx) q (h, tree, d @ [idx],
        out @ [''Dropping node because no suitable parent was found after 20 attempts: '' @ n_id (h ! a)])
        = (h', tree', d', out')"
      using Cons.prems(1) by (simp add: x)
    then show ?thesis using Cons.prems(2,3) by (intro Cons.IH) auto
  next
    case False
    obtain t1 h1 d1 where s: "scan_trees a idx tree h d = (t1, h1, d1)"
      by (cases "scan_trees a idx tree h d") auto
    have p: "process_pending (Suc idx) q (h1, t1, d1, out) = (h', tree', d', out')"
      using Cons.prems(1) False s by (simp add: x)
    have "(att, a) \<in> set tp" using Cons.prems(3) by (simp add: x)
    then have "I h1 t1" using Cons.prems(2) s by (rule assms(4))
    with p show ?thesis using Cons.prems(3) by (intro Cons.IH) auto
  qed
qed

lemma del_idxs_subset: "del_idxs ds xs = Inr ys \<Longrightarrow> set ys \<subseteq> set xs"
proof (induction ds arbitrary: xs)
  case Nil
  then show ?case by simp
next
  case (Cons i ds)
  then have "i < length xs" and d: "del_idxs ds (take i xs @ drop (Suc i) xs) = Inr ys"
    by (auto split: if_splits)
  from Cons.IH[OF d] have "set ys \<subseteq> set (take i xs) \<union> set (drop (Suc i) xs)" by simp
  then show ?case using set_take_subset[of i xs] set_drop_subset[of "Suc i" xs] by blast
qed

lemma flat_pass_rule:
  assumes "flat_pass (h, tree, tp, out) = Inr (h', tree', tp', out')" "I h tree"
    "\<And>att a h tree idx d tree' h' d'. (att, a) \<in> set tp \<Longrightarrow> I h tree \<Longrightarrow>
        scan_trees a idx tree h d = (tree', h', d') \<Longrightarrow> I h' tree'"
  shows "I h' tree' \<and> set tp' \<subseteq> set tp"
proof -
  obtain h1 t1 d1 o1 where p: "process_pending 0 tp (h, tree, [], out) = (h1, t1, d1, o1)"
    by (cases "process_pending 0 tp (h, tree, [], out)") auto
  from assms(1) p have del: "del_idxs (rev (sort d1)) tp = Inr tp'" and res: "h' = h1" "tree' = t1"
    by (auto simp: flat_pass_def split: sum.splits)
  have "I h1 t1"
    by (rule process_pending_rule[where I = I and tp = tp, OF p assms(2) subset_refl]) (rule assms(3))
  then show ?thesis using del_idxs_subset[OF del] res by simp
qed

lemma flat_loop_rule:
  assumes "flat_loop s = Some (Inr s')" "P s" "\<And>s s1. P s \<Longrightarrow> flat_pass s = Inr s1 \<Longrightarrow> P s1"
  shows "P s'"
proof -
  have "P x \<longrightarrow> (\<forall>s'. y = Inr s' \<longrightarrow> P s')" if "flat_loop x = Some y" for x y
  proof (rule flat_loop.raw_induct[where P = "\<lambda>x y. P x \<longrightarrow> (\<forall>s'. y = Inr s' \<longrightarrow> P s')", OF _ that])
    fix f x y
    assume IH: "\<And>s' y'. f s' = Some y' \<Longrightarrow> P s' \<longrightarrow> (\<forall>s''. y' = Inr s'' \<longrightarrow> P s'')"
      and eq: "(case flat_pass x of Inl e \<Rightarrow> Some (Inl e)
                | Inr s1 \<Rightarrow> if fst (snd (snd s1)) = [] then Some (Inr s1) else f s1) = Some y"
    show "P x \<longrightarrow> (\<forall>s'. y = Inr s' \<longrightarrow> P s')"
    proof (intro impI allI)
      fix s' assume Px: "P x" and y: "y = Inr s'"
      show "P s'"
      proof (cases "flat_pass x")
        case (Inl e)
        then show ?thesis using eq y by simp
      next
        case (Inr s1)
        have P1: "P s1" using Px Inr by (rule assms(3))
        show ?thesis
        proof (cases "fst (snd (snd s1)) = []")
          case True
          then have "s' = s1" using eq Inr y by simp
          then show ?thesis using P1 by simp
        next
          case False
          then have "f s1 = Some y" using eq Inr by simp
          from IH[OF this] P1 y show ?thesis by blast
        qed
      qed
    qed
  qed
  from this[OF assms(1)] assms(2) show ?thesis by blast
qed

subsection \<open>Every node is the node of a line, up to its level\<close>

definition cell_of :: "row list \<Rightarrow> string \<Rightarrow> node \<Rightarrow> bool" where
  "cell_of rows key x \<longleftrightarrow>
     (\<exists>r \<in> set rows. key \<in> set (r_ids r) \<and> (\<exists>l. x = (make_node r key)\<lparr>n_level := l\<rparr>))"

definition cells_ok :: "row list \<Rightarrow> node list \<Rightarrow> forest \<Rightarrow> bool" where
  "cells_ok rows h tree \<longleftrightarrow>
     (\<forall>b < length h. cell_of rows (n_id (h ! b)) (h ! b)) \<and>
     (\<forall>k st key a. (k, st) \<in> set tree \<longrightarrow> (key, a) \<in> set st \<longrightarrow> a < length h \<and> n_id (h ! a) = key)"

definition flat_ok :: "row list \<Rightarrow> flat_state \<Rightarrow> bool" where
  "flat_ok rows = (\<lambda>(h, tree, tp, out). cells_ok rows h tree \<and> (\<forall>att a. (att, a) \<in> set tp \<longrightarrow> a < length h))"

lemma cell_of_relevel:
  assumes "cell_of rows key x"
  shows "cell_of rows key (x\<lparr>n_level := l\<rparr>)"
proof -
  from assms obtain r m where r: "r \<in> set rows" "key \<in> set (r_ids r)" "x = (make_node r key)\<lparr>n_level := m\<rparr>"
    unfolding cell_of_def by blast
  have "x\<lparr>n_level := l\<rparr> = (make_node r key)\<lparr>n_level := l\<rparr>" unfolding r(3) by simp
  with r(1,2) show ?thesis unfolding cell_of_def by blast
qed

lemma cell_of_id: "cell_of rows key x \<Longrightarrow> n_id x = key"
  unfolding cell_of_def by (auto simp: make_node_def Let_def)

lemma read_node_ok:
  assumes "r \<in> set rows" "i \<in> set (r_ids r)" "flat_ok rows s"
  shows "flat_ok rows (read_node r i s)"
proof -
  obtain h tree tp out where s: "s = (h, tree, tp, out)" by (cases s)
  have c: "\<And>b. b < length h \<Longrightarrow> cell_of rows (n_id (h ! b)) (h ! b)"
    and t: "\<And>k st key a. (k, st) \<in> set tree \<Longrightarrow> (key, a) \<in> set st \<Longrightarrow> a < length h \<and> n_id (h ! a) = key"
    and q: "\<And>att a. (att, a) \<in> set tp \<Longrightarrow> a < length h"
    using assms(3) unfolding s flat_ok_def cells_ok_def by auto
  let ?h1 = "h @ [make_node r i]"
  have idn: "n_id (make_node r i) = i" by (simp add: make_node_def Let_def)
  have "make_node r i = (make_node r i)\<lparr>n_level := 0\<rparr>" by (simp add: make_node_def Let_def)
  then have new: "cell_of rows i (make_node r i)"
    unfolding cell_of_def using assms(1,2) by blast
  have c1: "cell_of rows (n_id (?h1 ! b)) (?h1 ! b)" if "b < length ?h1" for b
    using that c[of b] new idn by (cases "b < length h") (auto simp: nth_append)
  have t_old: "a < length ?h1 \<and> n_id (?h1 ! a) = key" if "(k, st) \<in> set tree" "(key, a) \<in> set st" for k st key a
    using t[OF that] by (simp add: nth_append)
  have t1: "a < length ?h1 \<and> n_id (?h1 ! a) = key"
    if "(k, st) \<in> set (AList.update i [(i, length h)] tree)" "(key, a) \<in> set st" for k st key a
  proof -
    have "(k, st) = (i, [(i, length h)]) \<or> (k, st) \<in> set tree"
      using that(1) set_update_subset[of i "[(i, length h)]" tree] by auto
    then show ?thesis using that(2) t_old idn by auto
  qed
  have q1: "a < length ?h1" if "(att, a) \<in> set (tp @ [(0, length h)])" for att a
    using that q[of att a] by auto
  have q0: "a < length ?h1" if "(att, a) \<in> set tp" for att a
    using q[OF that] by simp
  show ?thesis
  proof (cases "r_parent r = ''''")
    case True
    then have "read_node r i s = (?h1, AList.update i [(i, length h)] tree, tp, out)"
      by (simp add: s read_node_def Let_def)
    then show ?thesis unfolding flat_ok_def cells_ok_def using c1 t1 q0 by (simp; blast)
  next
    case False
    then have "read_node r i s = (?h1, tree, tp @ [(0, length h)], out)"
      by (simp add: s read_node_def Let_def)
    then show ?thesis unfolding flat_ok_def cells_ok_def using c1 t_old q1 by (simp; blast)
  qed
qed

lemma read_rows_ok: "flat_ok rows (read_rows rows)"
  by (rule read_rows_rule) (simp add: flat_ok_def cells_ok_def, rule read_node_ok)

lemma scan_trees_ok:
  assumes "scan_trees a idx tree h d = (tree', h', d')" "cells_ok rows h tree" "a < length h"
  shows "cells_ok rows h' tree' \<and> length h' = length h"
proof -
  from scan_trees_shape[OF assms(1)] have l: "length h' = length h"
    and o: "\<And>b. b \<noteq> a \<Longrightarrow> h' ! b = h ! b"
    and a0: "\<exists>l. h' ! a = (h ! a)\<lparr>n_level := l\<rparr>"
    and t': "\<And>k st'. (k, st') \<in> set tree' \<Longrightarrow>
        \<exists>st. (k, st) \<in> set tree \<and> (st' = st \<or> st' = AList.update (n_id (h ! a)) a st)"
    by blast+
  from a0 obtain l0 where a': "h' ! a = (h ! a)\<lparr>n_level := l0\<rparr>" by blast
  have c: "\<And>b. b < length h \<Longrightarrow> cell_of rows (n_id (h ! b)) (h ! b)"
    and t: "\<And>k st key a. (k, st) \<in> set tree \<Longrightarrow> (key, a) \<in> set st \<Longrightarrow> a < length h \<and> n_id (h ! a) = key"
    using assms(2) unfolding cells_ok_def by auto
  have ida: "n_id (h' ! a) = n_id (h ! a)" unfolding a' by simp
  have idb: "n_id (h' ! b) = n_id (h ! b)" for b using o[of b] ida by (cases "b = a") auto
  have c': "cell_of rows (n_id (h' ! b)) (h' ! b)" if "b < length h'" for b
  proof (cases "b = a")
    case True
    have "cell_of rows (n_id (h ! a)) ((h ! a)\<lparr>n_level := l0\<rparr>)"
      using c[OF assms(3)] by (rule cell_of_relevel)
    then show ?thesis using a' ida True by simp
  next
    case False
    then show ?thesis using c[of b] that l o by simp
  qed
  have n': "b < length h' \<and> n_id (h' ! b) = key" if "(k, st') \<in> set tree'" "(key, b) \<in> set st'" for k st' key b
  proof -
    from t'[OF that(1)] obtain st where st: "(k, st) \<in> set tree"
      "st' = st \<or> st' = AList.update (n_id (h ! a)) a st" by blast
    have "(key, b) \<in> set st \<or> (key, b) = (n_id (h ! a), a)"
      using st(2) that(2) set_update_subset[of "n_id (h ! a)" a st] by auto
    then show ?thesis
    proof
      assume "(key, b) \<in> set st"
      from t[OF st(1) this] show ?thesis using l idb by simp
    next
      assume "(key, b) = (n_id (h ! a), a)"
      then show ?thesis using assms(3) l ida by simp
    qed
  qed
  show ?thesis unfolding cells_ok_def using c' n' l by blast
qed

lemma flat_pass_ok:
  assumes "flat_ok rows s" "flat_pass s = Inr s1"
  shows "flat_ok rows s1"
proof -
  obtain h tree tp out where s: "s = (h, tree, tp, out)" by (cases s)
  obtain h1 tree1 tp1 out1 where s1: "s1 = (h1, tree1, tp1, out1)" by (cases s1)
  have c: "cells_ok rows h tree" and q: "\<And>att a. (att, a) \<in> set tp \<Longrightarrow> a < length h"
    using assms(1) unfolding s flat_ok_def by auto
  let ?I = "\<lambda>h' t'. cells_ok rows h' t' \<and> length h' = length h"
  have "?I h1 tree1 \<and> set tp1 \<subseteq> set tp"
  proof (rule flat_pass_rule[OF assms(2)[unfolded s s1], where I = ?I])
    show "?I h tree" using c by simp
  next
    fix att a h0 t0 idx d t' h' d'
    assume m: "(att, a) \<in> set tp" "?I h0 t0" "scan_trees a idx t0 h0 d = (t', h', d')"
    have "a < length h0" using q[OF m(1)] m(2) by simp
    with m(3) m(2) show "?I h' t'" using scan_trees_ok by metis
  qed
  then show ?thesis unfolding s1 flat_ok_def using q by auto
qed

lemma build_flat_ok:
  assumes "build_non_separator_based_tree rows = Some (Inr (h, forest, out))"
  shows "cells_ok rows h forest"
proof -
  from assms obtain s' where l: "flat_loop (read_rows rows) = Some (Inr s')"
    and s': "(case s' of (h, tree, to_process, out) \<Rightarrow> (h, tree, out)) = (h, forest, out)"
    unfolding build_non_separator_based_tree_def
    by (cases "flat_loop (read_rows rows)") (auto simp: map_sum_def split: sum.splits)
  have "flat_ok rows s'"
    by (rule flat_loop_rule[where P = "flat_ok rows", OF l read_rows_ok]) (rule flat_pass_ok)
  then show ?thesis using s' unfolding flat_ok_def by (auto split: prod.splits)
qed

section \<open>The weights and the colour after a build\<close>

lemma obo_forest_node_annotated:
  assumes "obo_forest root_id m raw h = Inr (h', forest)"
    "(k, st) \<in> set forest" "(key, a) \<in> set st" "a < length h'"
  shows "\<exists>x. h' ! a = annotated x"
proof -
  from assms(1) obtain h1 tree1 h2 tree2 n where
    h': "h' = annotate (fst (cleaning h2 (tree2, 0))) h2"
    and fo: "forest = prune m (fst (cleaning h2 (tree2, 0)))"
    by (rule obo_forest_stages)
  let ?t3 = "fst (cleaning h2 (tree2, 0))"
  have in3: "(k, st) \<in> set ?t3" using assms(2) prune_subset[of m ?t3] by (auto simp: fo)
  have a: "a < length h2" using assms(4) by (simp add: h' length_annotate)
  have "a \<in> set (addrs ?t3)" using in3 assms(3) by (rule in_addrs)
  then have "h' ! a = annotated (h2 ! a)" using a by (simp add: h' nth_annotate)
  then show ?thesis by blast
qed

text \<open>
  In flat mode the count of a line is kept when it is an integer other than 0, and so is
  the colour of the line: on the file whose only line is the root \<open>A\<close> with the count 5
  and the colour \<open>#FF0000\<close> the function returns that node with the weight 5.
\<close>

theorem flat_counts_kept_counterexample:
  "build_non_separator_based_tree [row_A] =
     Some (Inr ([\<lparr>n_id = ''A'', n_parent = '''', n_level = 0, n_label = ''a'', n_description = '''',
                  n_counts = 5, n_imported_counts = 5, n_color = ''#FF0000''\<rparr>],
                [(''A'', [(''A'', 0)])], [])) \<and>
   (5 :: real) \<noteq> zero' \<and> (5 :: real) \<noteq> fake_one"
proof -
  let ?s = "read_rows [row_A]"
  have p: "flat_pass ?s = Inr ?s" by (simp add: flat_eval row_A_def)
  have q: "fst (snd (snd ?s)) = []" by (simp add: flat_eval row_A_def)
  have "flat_loop ?s = Some (Inr ?s)"
    by (subst flat_loop.simps) (simp add: p q)
  then show ?thesis
    by (simp add: build_non_separator_based_tree_def flat_eval row_A_def zero'_def fake_one_def)
qed

text \<open>
  Claim C6, amended (the weights after a build). In graph mode every node of the returned
  forest has the weight 0.000001337, the original weight 1.000001337 and the colour
  \<open>#FFFFFF\<close>, whatever the term held before. In flat mode, when the function returns, every
  node of the forest is the node read from a line of the file that lists its id: its
  weight and its original weight are the count of that line when it is an integer other
  than 0, and the two sentinels when the count is 0 or not an integer; its colour is the
  colour of the line.
\<close>

theorem weights_after_build:
  "(\<forall>h' forest.
      build_tree_from_obo_ontology parse_obo_file url root_id raw_terms min_node_size h = Inr (h', forest) \<longrightarrow>
      (\<forall>(sub_tree_id, st) \<in> set forest. \<forall>(key, a) \<in> set st.
         (a < length h' \<longrightarrow>
            e_counts (h' ! a) = 0.000001337 \<and> e_imported_counts (h' ! a) = 1.000001337 \<and>
            e_color (h' ! a) = ''#FFFFFF'') \<and>
         ((\<exists>raw. raw_terms = Some raw \<and> raw \<noteq> [] \<and> (\<forall>(tm, b) \<in> set raw. b < length h)) \<longrightarrow>
            a < length h'))) \<and>
   (\<forall>hf forest out.
      build_non_separator_based_tree rows = Some (Inr (hf, forest, out)) \<longrightarrow>
      (\<forall>(sub_tree_id, st) \<in> set forest. \<forall>(key, a) \<in> set st.
         a < length hf \<and>
         (\<exists>r \<in> set rows. key \<in> set (r_ids r) \<and> n_id (hf ! a) = key \<and>
            n_counts (hf ! a) =
              (case r_count r of None \<Rightarrow> zero' | Some c \<Rightarrow> if c = 0 then zero' else of_int c) \<and>
            n_imported_counts (hf ! a) =
              (case r_count r of None \<Rightarrow> fake_one | Some c \<Rightarrow> if c = 0 then fake_one else of_int c) \<and>
            n_color (hf ! a) = r_color r)))"
proof (intro conjI allI impI)
  fix h' forest
  assume b: "build_tree_from_obo_ontology parse_obo_file url root_id raw_terms min_node_size h = Inr (h', forest)"
  from build_tree_cases[OF b] obtain raw0 h0 where
    o: "obo_forest root_id min_node_size raw0 h0 = Inr (h', forest)"
    and given: "\<And>raw. raw_terms = Some raw \<Longrightarrow> raw \<noteq> [] \<Longrightarrow> raw0 = raw \<and> h0 = h"
    by blast
  show "\<forall>(sub_tree_id, st) \<in> set forest. \<forall>(key, a) \<in> set st.
         (a < length h' \<longrightarrow>
            e_counts (h' ! a) = 0.000001337 \<and> e_imported_counts (h' ! a) = 1.000001337 \<and>
            e_color (h' ! a) = ''#FFFFFF'') \<and>
         ((\<exists>raw. raw_terms = Some raw \<and> raw \<noteq> [] \<and> (\<forall>(tm, b) \<in> set raw. b < length h)) \<longrightarrow>
            a < length h')"
  proof (intro ballI, clarify, intro conjI impI)
    fix k st key a
    assume m: "(k, st) \<in> set forest" "(key, a) \<in> set st" and a: "a < length h'"
    from obo_forest_node_annotated[OF o m a] obtain x where "h' ! a = annotated x" by blast
    then show "e_counts (h' ! a) = 0.000001337" "e_imported_counts (h' ! a) = 1.000001337"
      "e_color (h' ! a) = ''#FFFFFF''"
      using annotated_fields[of x] by simp_all
  next
    fix k st key a
    assume m: "(k, st) \<in> set forest" "(key, a) \<in> set st"
      and "\<exists>raw. raw_terms = Some raw \<and> raw \<noteq> [] \<and> (\<forall>(tm, b) \<in> set raw. b < length h)"
    then obtain raw where r: "raw_terms = Some raw" "raw \<noteq> []" and wf: "\<forall>(tm, b) \<in> set raw. b < length h"
      by blast
    from given[OF r] o have o': "obo_forest root_id min_node_size raw h = Inr (h', forest)" by simp
    from obo_forest_annotated[OF o' wf m] show "a < length h'" by simp
  qed
next
  fix hf forest out
  assume b: "build_non_separator_based_tree rows = Some (Inr (hf, forest, out))"
  have c: "cells_ok rows hf forest" using b by (rule build_flat_ok)
  show "\<forall>(sub_tree_id, st) \<in> set forest. \<forall>(key, a) \<in> set st.
         a < length hf \<and>
         (\<exists>r \<in> set rows. key \<in> set (r_ids r) \<and> n_id (hf ! a) = key \<and>
            n_counts (hf ! a) =
              (case r_count r of None \<Rightarrow> zero' | Some c \<Rightarrow> if c = 0 then zero' else of_int c) \<and>
            n_imported_counts (hf ! a) =
              (case r_count r of None \<Rightarrow> fake_one | Some c \<Rightarrow> if c = 0 then fake_one else of_int c) \<and>
            n_color (hf ! a) = r_color r)"
  proof (intro ballI, clarify)
    fix k st key a
    assume m: "(k, st) \<in> set forest" "(key, a) \<in> set st"
    from c m have a: "a < length hf" and i: "n_id (hf ! a) = key"
      unfolding cells_ok_def by blast+
    from c a have "cell_of rows (n_id (hf ! a)) (hf ! a)" unfolding cells_ok_def by blast
    then obtain r l where r: "r \<in> set rows" "key \<in> set (r_ids r)"
      "hf ! a = (make_node r key)\<lparr>n_level := l\<rparr>"
      unfolding cell_of_def i by blast
    have "n_counts (hf ! a) =
              (case r_count r of None \<Rightarrow> zero' | Some c \<Rightarrow> if c = 0 then zero' else of_int c) \<and>
          n_imported_counts (hf ! a) =
              (case r_count r of None \<Rightarrow> fake_one | Some c \<Rightarrow> if c = 0 then fake_one else of_int c) \<and>
          n_color (hf ! a) = r_color r"
      unfolding r(3) by (simp add: make_node_def Let_def split: option.splits)
    with a i r(1,2) show "a < length hf \<and>
         (\<exists>r \<in> set rows. key \<in> set (r_ids r) \<and> n_id (hf ! a) = key \<and>
            n_counts (hf ! a) =
              (case r_count r of None \<Rightarrow> zero' | Some c \<Rightarrow> if c = 0 then zero' else of_int c) \<and>
            n_imported_counts (hf ! a) =
              (case r_count r of None \<Rightarrow> fake_one | Some c \<Rightarrow> if c = 0 then fake_one else of_int c) \<and>
            n_color (hf ! a) = r_color r)"
      by blast
  qed
qed

theorem weights_after_build_witness:
  "map_sum id (\<lambda>(h', forest). (forest, e_counts (h' ! 8), e_imported_counts (h' ! 8), e_color (h' ! 8)))
     (build_tree_from_obo_ontology no_fetch None None (Some example_raw) None example_heap)
   = Inr ([(''R'', [(''R'', 0), (''T1'', 6), (''T2'', 7), (''T3'', 8)]), (''S'', [(''S'', 4)])],
          0.000001337, 1.000001337, ''#FFFFFF'') \<and>
   map_option (map_sum id (\<lambda>(hf, forest, out).
       (forest, map n_counts hf, map n_imported_counts hf, map n_color hf)))
     (build_non_separator_based_tree [row_B, row_A])
   = Some (Inr ([(''A'', [(''A'', 1), (''B'', 0)])], [zero', 5], [fake_one, 5], [''#00FF00'', ''#FF0000'']))"
proof -
  let ?b = "build_tree_from_obo_ontology no_fetch None None (Some example_raw) None example_heap"
  let ?F = "[(''R'', [(''R'', 0::nat), (''T1'', 6), (''T2'', 7), (''T3'', 8)]), (''S'', [(''S'', 4)])]"
  let ?G = "[(''A'', [(''A'', 1::nat), (''B'', 0)])]"
  note t = weights_after_build[of no_fetch None None "Some example_raw" None example_heap "[row_B, row_A]"]
  have "map_sum id snd ?b = Inr ?F" by (simp add: graph_eval)
  then obtain hN where hN: "?b = Inr (hN, ?F)" by (cases ?b) auto
  have wf: "\<exists>raw. Some example_raw = Some raw \<and> raw \<noteq> [] \<and> (\<forall>(tm, b) \<in> set raw. b < length example_heap)"
    by (simp add: example_raw_def example_heap_def)
  from t[THEN conjunct1, THEN spec, THEN spec, THEN mp, OF hN] wf
  have g: "e_counts (hN ! 8) = 0.000001337 \<and> e_imported_counts (hN ! 8) = 1.000001337 \<and>
      e_color (hN ! 8) = ''#FFFFFF''"
    by simp
  let ?s = "read_rows [row_B, row_A]"
  obtain s1 where p: "flat_pass ?s = Inr s1" and q: "fst (snd (snd s1)) = []"
    and f1: "fst (snd s1) = ?G" and l1: "length (fst s1) = 2" and o1: "snd (snd (snd s1)) = []"
    by (simp add: flat_eval row_A_def row_B_def)
  have "flat_loop ?s = Some (Inr s1)"
    by (subst flat_loop.simps) (simp add: p q)
  then obtain hf where bf: "build_non_separator_based_tree [row_B, row_A] = Some (Inr (hf, ?G, []))"
    and lf: "length hf = 2"
    using f1 l1 o1 by (cases s1) (simp add: build_non_separator_based_tree_def)
  from t[THEN conjunct2, THEN spec, THEN spec, THEN spec, THEN mp, OF bf]
  have n: "n_counts (hf ! 0) = zero' \<and> n_imported_counts (hf ! 0) = fake_one \<and> n_color (hf ! 0) = ''#00FF00'' \<and>
      n_counts (hf ! 1) = 5 \<and> n_imported_counts (hf ! 1) = 5 \<and> n_color (hf ! 1) = ''#FF0000''"
    by (simp add: row_A_def row_B_def)
  have m: "map f hf = [f (hf ! 0), f (hf ! 1)]" for f :: "node \<Rightarrow> 'b"
    using lf by (cases hf; cases "tl hf") auto
  show ?thesis using hN g bf n by (simp add: m)
qed

end
